theory Spec2Isabelle
  imports Complex_Main
begin

section \<open>Python strings\<close>

text \<open>
  A Python \<open>str\<close> is a sequence of code points. It is modelled as a \<open>string\<close> whose
  characters are the code points below 256 (ASCII and the Latin-1 supplement), so \<open>length\<close>
  counts code points as \<open>len\<close> does. On that range \<open>str.isspace\<close> holds exactly for the
  code points 9 to 13, 28 to 32, 133 and 160, and \<open>str.lower\<close> adds 32 to the code points
  65 to 90 and 192 to 222 except 215, leaving every other code point as it is.
\<close>

definition isspace :: "char \<Rightarrow> bool" where
  "isspace c = (let n = (of_char c :: nat)
     in (9 \<le> n \<and> n \<le> 13) \<or> (28 \<le> n \<and> n \<le> 32) \<or> n = 133 \<or> n = 160)"

definition lower_char :: "char \<Rightarrow> char" where
  "lower_char c = (let n = (of_char c :: nat)
     in if (65 \<le> n \<and> n \<le> 90) \<or> (192 \<le> n \<and> n \<le> 222 \<and> n \<noteq> 215)
        then char_of (n + 32) else c)"

text \<open>\<open>s.lower()\<close>\<close>

definition lower :: "string \<Rightarrow> string" where
  "lower s = map lower_char s"

text \<open>\<open>s.strip()\<close> with no argument removes leading and trailing whitespace.\<close>

definition lstrip :: "string \<Rightarrow> string" where
  "lstrip s = dropWhile isspace s"

definition rstrip :: "string \<Rightarrow> string" where
  "rstrip s = rev (dropWhile isspace (rev s))"

definition strip :: "string \<Rightarrow> string" where
  "strip s = rstrip (lstrip s)"

text \<open>
  \<open>s.split(sep)\<close> for a one-character separator: the pieces between the occurrences of
  \<open>sep\<close>, empty pieces included; the empty string gives one empty piece.
\<close>

function split :: "char \<Rightarrow> string \<Rightarrow> string list" where
  "split sep s =
     (case dropWhile (\<lambda>c. c \<noteq> sep) s of
        [] \<Rightarrow> [s]
      | _ # rest \<Rightarrow> takeWhile (\<lambda>c. c \<noteq> sep) s # split sep rest)"
  by pat_completeness auto
termination
proof (relation "measure (\<lambda>(sep, s). length s)")
  show "wf (measure (\<lambda>(sep, s). length s))"
    by simp
next
  fix sep :: char and s :: string and x rest
  assume "dropWhile (\<lambda>c. c \<noteq> sep) s = x # rest"
  then have "length rest < length (dropWhile (\<lambda>c. c \<noteq> sep) s)"
    by simp
  also have "\<dots> \<le> length s"
    by (rule length_dropWhile_le)
  finally show "((sep, rest), (sep, s)) \<in> measure (\<lambda>(sep, s). length s)"
    by simp
qed

declare split.simps [simp del]

text \<open>\<open>s.rjust(width, fillchar)\<close> pads on the left; a string already that long is unchanged.\<close>

definition rjust :: "nat \<Rightarrow> char \<Rightarrow> string \<Rightarrow> string" where
  "rjust width fillchar s = replicate (width - length s) fillchar @ s"

text \<open>The slices \<open>s[-n:]\<close> (for \<open>n > 0\<close>) and \<open>s[:n]\<close>; neither raises on a short string.\<close>

definition last_n :: "nat \<Rightarrow> 'a list \<Rightarrow> 'a list" where
  "last_n n s = drop (length s - n) s"

definition first_n :: "nat \<Rightarrow> 'a list \<Rightarrow> 'a list" where
  "first_n n s = take n s"

text \<open>\<open>str(n)\<close> of a non-negative integer: its decimal digits, most significant first.\<close>

definition digit_char :: "nat \<Rightarrow> char" where
  "digit_char d = char_of (48 + d)"

function str_nat :: "nat \<Rightarrow> string" where
  "str_nat n = (if n < 10 then [digit_char n] else str_nat (n div 10) @ [digit_char (n mod 10)])"
  by pat_completeness auto
termination
  by (relation "measure id") auto

declare str_nat.simps [simp del]

text \<open>
  The values that reach \<open>str(...)\<close> in this program are strings (the table's codes, the
  frame texts); an integer is the other value the documentation of the callers names.
\<close>

datatype pyval = PyStr string | PyInt int

fun str :: "pyval \<Rightarrow> string" where
  "str (PyStr s) = s"
| "str (PyInt i) = (if i < 0 then CHR ''-'' # str_nat (nat (- i)) else str_nat (nat i))"


section \<open>The fault-code table and the 3-digit code\<close>

text \<open>
  \<open>TEXT_TO_NUMERIC_ERROR\<close> of \<open>mydisplay.py\<close> (the simulator branch, \<open>USE_SIM = True\<close>),
  as an association list in the order of the dictionary literal.
\<close>

definition TEXT_TO_NUMERIC_ERROR :: "(string \<times> string) list" where
  "TEXT_TO_NUMERIC_ERROR =
    [(''lidar_com'', ''101''),
     (''lidar_fail'', ''201''),
     (''emi_com'', ''102''),
     (''emi_fail'', ''202''),
     (''imu_com'', ''103''),
     (''imu_fail'', ''203''),
     (''raspberry_com'', ''104''),
     (''raspberry_fail'', ''204''),
     (''camera_com'', ''105''),
     (''camera_fail'', ''205''),
     (''ip_mesh_com'', ''106''),
     (''ip_mesh_fail'', ''206''),
     (''gps_com'', ''107''),
     (''gps_fail'', ''207''),
     (''general_fail'', ''999'')]"

text \<open>\<open>d.get(k, default)\<close>\<close>

definition dict_get :: "('k \<times> 'v) list \<Rightarrow> 'k \<Rightarrow> 'v \<Rightarrow> 'v" where
  "dict_get d k dflt = (case map_of d k of Some v \<Rightarrow> v | None \<Rightarrow> dflt)"

text \<open>\<open>TEXT_TO_NUMERIC_ERROR.get(code_text.lower(), "999")\<close> (display_node.py, line 78)\<close>

definition lookup :: "string \<Rightarrow> string" where
  "lookup code_text = dict_get TEXT_TO_NUMERIC_ERROR (lower code_text) ''999''"

text \<open>\<open>str(code).rjust(3, "0")[-3:]\<close> (display_node.py, line 79)\<close>

definition code_str :: "pyval \<Rightarrow> string" where
  "code_str code = last_n 3 (rjust 3 (CHR ''0'') (str code))"


section \<open>Ingestion: the payload of a message\<close>

text \<open>
  \<open>listener_callback\<close>, lines 45 and 46 of display_node.py:
  \<^verbatim>\<open>text = msg.data.strip()\<close> and
  \<^verbatim>\<open>errors = [e.strip() for e in text.split(',') if e.strip()]\<close>.
  A non-empty string is true. No operation here can raise on a string.
\<close>

definition parse_errors :: "string \<Rightarrow> string list" where
  "parse_errors data =
     (let text = strip data
      in map strip (filter (\<lambda>e. strip e \<noteq> []) (split (CHR '','') text)))"

text \<open>
  The parsing rule in the words of the specification: split on the comma, trim each token,
  drop the tokens that are empty. It is compared with \<open>parse_errors\<close> below.
\<close>

definition spec_parse :: "string \<Rightarrow> string list" where
  "spec_parse payload = filter (\<lambda>t. t \<noteq> []) (map strip (split (CHR '','') payload))"


section \<open>The registry: list objects and the reference held by the node\<close>

text \<open>
  Python lists are objects reached through references, and \<open>list.copy()\<close> makes a new
  object. The heap is the sequence of list objects made so far, an address is an index
  into it, and \<open>active_errors\<close> is the reference stored in \<open>self.active_errors\<close>.
  A reference in a running program always points to an object: \<open>wf\<close> says so for the
  node's own reference.
\<close>

type_synonym addr = nat

record node =
  heap :: "string list list"
  active_errors :: addr

definition wf :: "node \<Rightarrow> bool" where
  "wf s = (active_errors s < length (heap s))"

text \<open>\<open>self.active_errors = []\<close> in \<open>__init__\<close> (line 34).\<close>

definition init_node :: node where
  "init_node = \<lparr>heap = [[]], active_errors = 0\<rparr>"

text \<open>A new list object with the given elements; the result is its address.\<close>

definition new_list :: "string list \<Rightarrow> node \<Rightarrow> addr \<times> node" where
  "new_list xs s = (length (heap s), s\<lparr>heap := heap s @ [xs]\<rparr>)"

text \<open>\<open>xs.copy()\<close>\<close>

definition list_copy :: "addr \<Rightarrow> node \<Rightarrow> addr \<times> node" where
  "list_copy a s = new_list (heap s ! a) s"

text \<open>
  The specification's \<open>Replace\<close> is the block
  \<^verbatim>\<open>with self.lock: self.active_errors = errors.copy()\<close> (lines 47 and 48), and its
  \<open>Snapshot\<close> is \<^verbatim>\<open>with self.lock: errors = self.active_errors.copy()\<close>
  (lines 60 and 61). Run by one thread with no other thread active they are:
\<close>

definition Replace :: "addr \<Rightarrow> node \<Rightarrow> node" where
  "Replace newList s = (let (c, s1) = list_copy newList s in s1\<lparr>active_errors := c\<rparr>)"

definition Snapshot :: "node \<Rightarrow> addr \<times> node" where
  "Snapshot s = list_copy (active_errors s) s"

text \<open>The elements of the list that \<open>Snapshot\<close> returns.\<close>

definition snapshot_value :: "node \<Rightarrow> string list" where
  "snapshot_value s = (let (errors, s') = Snapshot s in heap s' ! errors)"

text \<open>The list a snapshot would read: the elements of the object the node refers to.\<close>

definition registry :: "node \<Rightarrow> string list" where
  "registry s = heap s ! active_errors s"

text \<open>The caller of \<open>Replace\<close> changing, in place, the list object at address \<open>a\<close>.\<close>

definition mutate :: "addr \<Rightarrow> string list \<Rightarrow> node \<Rightarrow> node" where
  "mutate a xs s = s\<lparr>heap := (heap s)[a := xs]\<rparr>"

text \<open>\<open>listener_callback\<close> (lines 43 to 48); \<open>data\<close> is \<open>msg.data\<close>.\<close>

definition listener_callback :: "string \<Rightarrow> node \<Rightarrow> node" where
  "listener_callback data s =
     (let (errors, s1) = new_list (parse_errors data) s
      in Replace errors s1)"


section \<open>The renderer: the simulated display\<close>

text \<open>
  \<open>DIGITS\<close> and the keys of \<open>SEGMENTS\<close> of mydisplay.py. A digit of the simulator is the
  fill colour of its seven segments and of its decimal point; it is modelled by the names
  of the segments filled red, in the order of \<open>SEGMENTS\<close>, and whether the point is red.
\<close>

definition SEGMENTS :: string where
  "SEGMENTS = ''abcdefg''"

definition DIGITS :: "(char \<times> string) list" where
  "DIGITS =
    [(CHR ''0'', ''abcdef''),
     (CHR ''1'', ''bc''),
     (CHR ''2'', ''abged''),
     (CHR ''3'', ''abgcd''),
     (CHR ''4'', ''fgbc''),
     (CHR ''5'', ''afgcd''),
     (CHR ''6'', ''afgcde''),
     (CHR ''7'', ''abc''),
     (CHR ''8'', ''abcdefg''),
     (CHR ''9'', ''abcfgd''),
     (CHR '' '', []),
     (CHR ''-'', ''g'')]"

record SevenSegDigit =
  red :: string
  dp :: bool

text \<open>\<open>SevenSegDigit.set_char\<close> (lines 59 to 64)\<close>

definition set_char :: "char \<Rightarrow> bool \<Rightarrow> SevenSegDigit" where
  "set_char ch show_dp =
     (let active = dict_get DIGITS ch []
      in \<lparr>red = filter (\<lambda>name. name \<in> set active) SEGMENTS, dp = show_dp\<rparr>)"

record Seg7x4 =
  digits :: "SevenSegDigit list"
  colon :: bool

text \<open>\<open>Seg7x4.__init__\<close>: four digits with every segment grey, the colon off.\<close>

definition init_display :: Seg7x4 where
  "init_display = \<lparr>digits = replicate 4 \<lparr>red = [], dp = False\<rparr>, colon = False\<rparr>"

datatype py_error = IndexError

text \<open>
  The loop \<^verbatim>\<open>for i, ch in enumerate(text): self.digits[i].set_char(ch)\<close>;
  \<open>self.digits[i]\<close> raises \<open>IndexError\<close> when there is no digit \<open>i\<close>.
\<close>

fun set_chars :: "(nat \<times> char) list \<Rightarrow> SevenSegDigit list \<Rightarrow> py_error + SevenSegDigit list" where
  "set_chars [] ds = Inr ds"
| "set_chars ((i, ch) # rest) ds =
     (if i < length ds then set_chars rest (ds[i := set_char ch False]) else Inl IndexError)"

text \<open>The text \<open>Seg7x4.print\<close> shows: \<open>str(text).rjust(4, "0")[-4:]\<close> (line 88).\<close>

definition shown_text :: "pyval \<Rightarrow> string" where
  "shown_text text = last_n 4 (rjust 4 (CHR ''0'') (str text))"

text \<open>\<open>Seg7x4.print\<close> (lines 86 to 90)\<close>

definition Seg7x4_print :: "pyval \<Rightarrow> Seg7x4 \<Rightarrow> py_error + Seg7x4" where
  "Seg7x4_print text d =
     (let text = shown_text text
      in case set_chars (enumerate 0 text) (digits d) of
           Inl e \<Rightarrow> Inl e
         | Inr ds \<Rightarrow> Inr (d\<lparr>digits := ds\<rparr>))"

text \<open>The setter of the property \<open>colon\<close> (lines 97 to 103)\<close>

definition set_colon :: "bool \<Rightarrow> Seg7x4 \<Rightarrow> Seg7x4" where
  "set_colon state d = d\<lparr>colon := state\<rparr>"


section \<open>The render loop\<close>

text \<open>
  What \<open>display_loop\<close> does to the world outside it is a sequence of calls: printing on
  the display, setting its colon, sleeping, and reading the registry (recorded with the
  elements of the list that was read). The arguments of \<open>time.sleep\<close> are the decimal
  literals of the source, kept as rationals.
\<close>

datatype call = ReadErrors "string list" | Print pyval | SetColon bool | Sleep rat

definition loop_start_code :: string where
  "loop_start_code = ''---''"

definition loop_start_delay :: rat where
  "loop_start_delay = 0.3"

definition error_delay :: rat where
  "error_delay = 1.0"

text \<open>\<open>show_no_errors\<close> (mydisplay.py, lines 195 to 198)\<close>

definition show_no_errors :: "call list" where
  "show_no_errors = [Print (PyStr ''0000''), SetColon False]"

text \<open>The body of the \<open>for\<close> loop (lines 78 to 82), for one element of \<open>errors\<close>.\<close>

definition show_error :: "string \<Rightarrow> string \<Rightarrow> call list" where
  "show_error num_errors code_text =
     (let code = lookup code_text;
          code_str = code_str (PyStr code)
      in [Print (PyStr (num_errors @ code_str)), SetColon False, Sleep error_delay])"

text \<open>The body of the \<open>while\<close> loop after the registry is read (lines 63 to 82).\<close>

definition render_cycle :: "string list \<Rightarrow> call list" where
  "render_cycle errors =
     (if errors = [] then show_no_errors @ [Sleep error_delay]
      else
        (let num_errors = first_n 1 (str_nat (length errors))
         in [Print (PyStr (num_errors @ loop_start_code)), SetColon False, Sleep loop_start_delay]
            @ concat (map (show_error num_errors) errors)))"

text \<open>The payloads handed to \<open>listener_callback\<close> one after the other, oldest first.\<close>

definition deliver :: "string list \<Rightarrow> node \<Rightarrow> node" where
  "deliver msgs s = foldl (\<lambda>s data. listener_callback data s) s msgs"

text \<open>
  \<open>display_loop\<close> (lines 50 to 82) never returns. Its first \<open>n\<close> iterations are given by a
  list of length \<open>n\<close>: the element for an iteration holds the payloads that
  \<open>listener_callback\<close> received since the previous read of the registry, oldest first.
  An update that arrives while frames are held is seen at the next read only.
\<close>

fun display_loop :: "string list list \<Rightarrow> node \<Rightarrow> call list" where
  "display_loop [] s = []"
| "display_loop (msgs # later) s =
     (let (errors, s') = Snapshot (deliver msgs s)
      in ReadErrors (heap s' ! errors) # render_cycle (heap s' ! errors) @ display_loop later s')"

text \<open>The lists read from the registry in a trace, in order.\<close>

fun reads :: "call list \<Rightarrow> string list list" where
  "reads [] = []"
| "reads (ReadErrors errors # cs) = errors # reads cs"
| "reads (c # cs) = reads cs"

fun is_read :: "call \<Rightarrow> bool" where
  "is_read (ReadErrors errors) = True"
| "is_read c = False"

text \<open>
  A trace in which every print is followed at once by the colon being set to \<open>False\<close>, and
  the colon is set nowhere else.
\<close>

fun framed :: "call list \<Rightarrow> bool" where
  "framed [] = True"
| "framed (Print t # SetColon state # cs) = (\<not> state \<and> framed cs)"
| "framed (Print t # cs) = False"
| "framed (SetColon state # cs) = False"
| "framed (c # cs) = framed cs"

text \<open>The calls of a trace carried out on the display, in order.\<close>

fun render :: "call list \<Rightarrow> Seg7x4 \<Rightarrow> py_error + Seg7x4" where
  "render [] d = Inr d"
| "render (Print text # cs) d =
     (case Seg7x4_print text d of Inl e \<Rightarrow> Inl e | Inr d' \<Rightarrow> render cs d')"
| "render (SetColon state # cs) d = render cs (set_colon state d)"
| "render (c # cs) d = render cs d"


section \<open>The two threads\<close>

text \<open>
  \<open>listener_callback\<close> runs on the executor's thread, one call at a time in the order
  of the messages, and \<open>display_loop\<close> on the display thread; they share
  \<open>self.active_errors\<close> and \<open>self.lock\<close>. Each thread is a program
  counter over the statements of its code, and a schedule is the order in which the
  threads take their steps. Entering a \<open>with self.lock\<close> block is a step that can be
  taken only while no thread holds the lock; a thread that cannot move stays where it is.

  \<open>list.copy()\<close> is not taken to be one step: it makes an empty list and appends the
  elements of its source one at a time, so that every other thread may run between any
  two elements. The interpreter runs it in one piece; the schedules here include that one.
\<close>

datatype tid = Listener | Cycler

text \<open>
  The listener between messages, with \<open>errors\<close> built (line 46), inside the block (line 47),
  copying \<open>errors\<close> into a new list, with the copy made, and with the reference stored
  (line 48).
\<close>

datatype listener_pc =
  L_Idle | L_Parsed addr | L_Locked addr | L_Copying addr addr | L_Copied addr | L_Assigned

text \<open>
  One pass of the display thread over lines 60 and 61: before the block, inside it, copying
  the list \<open>self.active_errors\<close> referred to, with the copy made, and after the block with
  \<open>errors\<close> bound to the copy.
\<close>

datatype cycler_pc =
  C_Start | C_Locked | C_Copying addr addr | C_Copied addr | C_Done addr

record config =
  mem :: node
  lock :: "tid option"
  inbox :: "string list"
  lpc :: listener_pc
  cpc :: cycler_pc

definition copy_finished :: "addr \<Rightarrow> addr \<Rightarrow> node \<Rightarrow> bool" where
  "copy_finished src dst s = (length (heap s ! src) \<le> length (heap s ! dst))"

definition copy_elem :: "addr \<Rightarrow> addr \<Rightarrow> node \<Rightarrow> node" where
  "copy_elem src dst s =
     (let i = length (heap s ! dst)
      in s\<lparr>heap := (heap s)[dst := heap s ! dst @ [heap s ! src ! i]]\<rparr>)"

definition listener_step :: "config \<Rightarrow> config" where
  "listener_step c =
     (case lpc c of
        L_Idle \<Rightarrow>
          (case inbox c of
             [] \<Rightarrow> c
           | data # rest \<Rightarrow>
               (let (errors, m) = new_list (parse_errors data) (mem c)
                in c\<lparr>mem := m, inbox := rest, lpc := L_Parsed errors\<rparr>))
      | L_Parsed errors \<Rightarrow>
          (if lock c = None then c\<lparr>lock := Some Listener, lpc := L_Locked errors\<rparr> else c)
      | L_Locked errors \<Rightarrow>
          (let (new, m) = new_list [] (mem c) in c\<lparr>mem := m, lpc := L_Copying errors new\<rparr>)
      | L_Copying errors new \<Rightarrow>
          (if copy_finished errors new (mem c) then c\<lparr>lpc := L_Copied new\<rparr>
           else c\<lparr>mem := copy_elem errors new (mem c)\<rparr>)
      | L_Copied new \<Rightarrow> c\<lparr>mem := (mem c)\<lparr>active_errors := new\<rparr>, lpc := L_Assigned\<rparr>
      | L_Assigned \<Rightarrow> c\<lparr>lock := None, lpc := L_Idle\<rparr>)"

definition cycler_step :: "config \<Rightarrow> config" where
  "cycler_step c =
     (case cpc c of
        C_Start \<Rightarrow>
          (if lock c = None then c\<lparr>lock := Some Cycler, cpc := C_Locked\<rparr> else c)
      | C_Locked \<Rightarrow>
          (let (new, m) = new_list [] (mem c)
           in c\<lparr>mem := m, cpc := C_Copying (active_errors (mem c)) new\<rparr>)
      | C_Copying src new \<Rightarrow>
          (if copy_finished src new (mem c) then c\<lparr>cpc := C_Copied new\<rparr>
           else c\<lparr>mem := copy_elem src new (mem c)\<rparr>)
      | C_Copied new \<Rightarrow> c\<lparr>lock := None, cpc := C_Done new\<rparr>
      | C_Done errors \<Rightarrow> c)"

fun step :: "tid \<Rightarrow> config \<Rightarrow> config" where
  "step Listener c = listener_step c"
| "step Cycler c = cycler_step c"

definition run :: "tid list \<Rightarrow> config \<Rightarrow> config" where
  "run sched c = foldl (\<lambda>c t. step t c) c sched"

text \<open>The node after \<open>__init__\<close>, the payloads still to be delivered, both threads at their start.\<close>

definition init_config :: "string list \<Rightarrow> config" where
  "init_config payloads =
     \<lparr>mem = init_node, lock = None, inbox = payloads, lpc = L_Idle, cpc = C_Start\<rparr>"

text \<open>
  The invariant of the two threads. \<open>lrefs\<close> and \<open>crefs\<close> are the addresses a thread holds
  at its program counter, \<open>lcopy\<close> and \<open>ccopy\<close> the copy it has in progress (source and
  new list), \<open>lholds\<close> and \<open>cholds\<close> say that it is inside its \<open>with self.lock\<close> block.
  \<open>inv\<close>: every list that is not being built holds the elements parsed from one payload
  (or none, as the list of \<open>__init__\<close>); every address held, the registry's too, points to
  such a list; a list being built is a prefix of its source; a thread is inside its block
  exactly when it holds the lock.
\<close>

fun lrefs :: "listener_pc \<Rightarrow> addr list" where
  "lrefs (L_Parsed errors) = [errors]"
| "lrefs (L_Locked errors) = [errors]"
| "lrefs (L_Copying errors new) = [errors]"
| "lrefs (L_Copied new) = [new]"
| "lrefs pc = []"

fun crefs :: "cycler_pc \<Rightarrow> addr list" where
  "crefs (C_Copying src new) = [src]"
| "crefs (C_Copied new) = [new]"
| "crefs (C_Done errors) = [errors]"
| "crefs pc = []"

fun lcopy :: "listener_pc \<Rightarrow> (addr \<times> addr) list" where
  "lcopy (L_Copying errors new) = [(errors, new)]"
| "lcopy pc = []"

fun ccopy :: "cycler_pc \<Rightarrow> (addr \<times> addr) list" where
  "ccopy (C_Copying src new) = [(src, new)]"
| "ccopy pc = []"

fun lholds :: "listener_pc \<Rightarrow> bool" where
  "lholds L_Idle = False"
| "lholds (L_Parsed errors) = False"
| "lholds pc = True"

fun cholds :: "cycler_pc \<Rightarrow> bool" where
  "cholds C_Locked = True"
| "cholds (C_Copying src new) = True"
| "cholds (C_Copied new) = True"
| "cholds pc = False"

definition inv :: "string list \<Rightarrow> config \<Rightarrow> bool" where
  "inv payloads c =
     (let h = heap (mem c);
          refs = active_errors (mem c) # lrefs (lpc c) @ crefs (cpc c);
          copies = lcopy (lpc c) @ ccopy (cpc c)
      in (\<forall>a<length h. a \<notin> snd ` set copies \<longrightarrow> h ! a \<in> insert [] (parse_errors ` set payloads))
         \<and> (\<forall>r\<in>set refs. r < length h \<and> r \<notin> snd ` set copies)
         \<and> (\<forall>(src, new)\<in>set copies.
               new < length h \<and> h ! new = take (length (h ! new)) (h ! src))
         \<and> set (inbox c) \<subseteq> set payloads
         \<and> (lholds (lpc c) \<longleftrightarrow> lock c = Some Listener)
         \<and> (cholds (cpc c) \<longleftrightarrow> lock c = Some Cycler))"


section \<open>Properties of the code lookup and of the 3-digit code\<close>

lemma length_code_str: "length (code_str code) = 3"
  by (auto simp: code_str_def rjust_def last_n_def)

lemma of_char_lower_char:
  "of_char (lower_char c) = (let n = (of_char c :: nat)
     in if (65 \<le> n \<and> n \<le> 90) \<or> (192 \<le> n \<and> n \<le> 222 \<and> n \<noteq> 215) then n + 32 else n)"
  by (auto simp: lower_char_def Let_def)

lemma lower_char_idem: "lower_char (lower_char c) = lower_char c"
proof -
  have "(of_char (lower_char (lower_char c)) :: nat) = of_char (lower_char c)"
    by (simp add: of_char_lower_char Let_def)
  then show ?thesis by simp
qed

lemma lower_idem: "lower (lower s) = lower s"
  by (simp add: lower_def lower_char_idem)

lemma table_keys_distinct: "distinct (map fst TEXT_TO_NUMERIC_ERROR)"
  by (simp add: TEXT_TO_NUMERIC_ERROR_def)

lemma table_codes_length: "(k, v) \<in> set TEXT_TO_NUMERIC_ERROR \<Longrightarrow> length v = 3"
  by (auto simp: TEXT_TO_NUMERIC_ERROR_def)

lemma lookup_hit:
  "map_of TEXT_TO_NUMERIC_ERROR (lower ident) = Some v \<Longrightarrow> lookup ident = v"
  by (simp add: lookup_def dict_get_def)

lemma lookup_miss:
  "map_of TEXT_TO_NUMERIC_ERROR (lower ident) = None \<Longrightarrow> lookup ident = ''999''"
  by (simp add: lookup_def dict_get_def)

lemma length_lookup: "length (lookup ident) = 3"
proof (cases "map_of TEXT_TO_NUMERIC_ERROR (lower ident)")
  case None
  then show ?thesis by (simp add: lookup_miss)
next
  case (Some v)
  then have "(lower ident, v) \<in> set TEXT_TO_NUMERIC_ERROR"
    by (rule map_of_SomeD)
  then have "length v = 3" by (rule table_codes_length)
  with Some show ?thesis by (simp add: lookup_hit)
qed

text \<open>
  Claim C4. The lookup lower-cases the identifier. If the lower-cased identifier is a key of
  the table, the result is the code the table pairs with that key (the keys are distinct,
  see \<open>table_keys_distinct\<close>); otherwise it is \<open>"999"\<close>. So identifiers that differ in case
  only get the same code, the result always has three characters, \<open>"LIDAR_FAIL"\<close> gives
  \<open>"201"\<close> and \<open>"unknown_x"\<close> gives \<open>"999"\<close>.
\<close>

theorem lookup_lowercases_with_fallback:
  "(lower ident \<in> fst ` set TEXT_TO_NUMERIC_ERROR \<longrightarrow>
      (lower ident, lookup ident) \<in> set TEXT_TO_NUMERIC_ERROR)
   \<and> (lower ident \<notin> fst ` set TEXT_TO_NUMERIC_ERROR \<longrightarrow> lookup ident = ''999'')
   \<and> lookup (lower ident) = lookup ident
   \<and> length (lookup ident) = 3
   \<and> lookup ''LIDAR_FAIL'' = ''201''
   \<and> lookup ''unknown_x'' = ''999''"
proof (intro conjI impI)
  assume "lower ident \<in> fst ` set TEXT_TO_NUMERIC_ERROR"
  then obtain v where v: "map_of TEXT_TO_NUMERIC_ERROR (lower ident) = Some v"
    by (metis map_of_eq_None_iff not_Some_eq)
  then have "(lower ident, v) \<in> set TEXT_TO_NUMERIC_ERROR"
    by (rule map_of_SomeD)
  with v show "(lower ident, lookup ident) \<in> set TEXT_TO_NUMERIC_ERROR"
    by (simp add: lookup_hit)
next
  assume "lower ident \<notin> fst ` set TEXT_TO_NUMERIC_ERROR"
  then have "map_of TEXT_TO_NUMERIC_ERROR (lower ident) = None"
    by (simp add: map_of_eq_None_iff)
  then show "lookup ident = ''999''"
    by (rule lookup_miss)
next
  show "lookup (lower ident) = lookup ident"
    by (simp add: lookup_def lower_idem)
next
  show "length (lookup ident) = 3"
    by (rule length_lookup)
next
  show "lookup ''LIDAR_FAIL'' = ''201''"
    by code_simp
next
  show "lookup ''unknown_x'' = ''999''"
    by code_simp
qed

text \<open>Both cases occur: \<open>"LIDAR_FAIL"\<close> lower-cases to a key, \<open>"unknown_x"\<close> does not.\<close>

theorem lookup_lowercases_with_fallback_witness:
  "lower ''LIDAR_FAIL'' \<in> fst ` set TEXT_TO_NUMERIC_ERROR
   \<and> (lower ''LIDAR_FAIL'', lookup ''LIDAR_FAIL'') \<in> set TEXT_TO_NUMERIC_ERROR
   \<and> lower ''unknown_x'' \<notin> fst ` set TEXT_TO_NUMERIC_ERROR
   \<and> lookup ''unknown_x'' = ''999''"
proof -
  have hit: "lower ''LIDAR_FAIL'' \<in> fst ` set TEXT_TO_NUMERIC_ERROR"
    by code_simp
  have miss: "lower ''unknown_x'' \<notin> fst ` set TEXT_TO_NUMERIC_ERROR"
    by code_simp
  from hit miss
    lookup_lowercases_with_fallback [of "''LIDAR_FAIL''"]
    lookup_lowercases_with_fallback [of "''unknown_x''"]
  show ?thesis by blast
qed

text \<open>
  Claim C6. The 3-digit step, \<open>str(code).rjust(3, "0")[-3:]\<close>, right-justifies the value in
  a field of three characters: a value of at most three characters gets zeros in front
  until it has three, a longer value keeps its last three characters only. The result has
  three characters in both cases; the value 1 gives \<open>"001"\<close> and the value 1234 gives
  \<open>"234"\<close>, as a string or as an integer.
\<close>

theorem code_str_three_digits:
  "code_str code =
     (if length (str code) \<le> 3 then replicate (3 - length (str code)) (CHR ''0'') @ str code
      else drop (length (str code) - 3) (str code))
   \<and> length (code_str code) = 3
   \<and> code_str (PyStr ''1'') = ''001''
   \<and> code_str (PyStr ''1234'') = ''234''
   \<and> code_str (PyInt 1) = ''001''
   \<and> code_str (PyInt 1234) = ''234''"
proof (intro conjI)
  show "code_str code =
     (if length (str code) \<le> 3 then replicate (3 - length (str code)) (CHR ''0'') @ str code
      else drop (length (str code) - 3) (str code))"
    by (auto simp: code_str_def rjust_def last_n_def)
next
  show "length (code_str code) = 3"
    by (rule length_code_str)
next
  show "code_str (PyStr ''1'') = ''001''"
    by code_simp
next
  show "code_str (PyStr ''1234'') = ''234''"
    by code_simp
next
  show "code_str (PyInt 1) = ''001''"
    by code_simp
next
  show "code_str (PyInt 1234) = ''234''"
    by code_simp
qed

section \<open>Properties of the renderer\<close>

lemma length_shown_text: "length (shown_text text) = 4"
  by (auto simp: shown_text_def rjust_def last_n_def)

lemma set_chars_enumerate:
  "k + length cs0 \<le> length ds \<Longrightarrow>
   set_chars (enumerate k cs0) ds =
     Inr (take k ds @ map (\<lambda>ch. set_char ch False) cs0 @ drop (k + length cs0) ds)"
proof (induction cs0 arbitrary: k ds)
  case Nil
  then show ?case by simp
next
  case (Cons c cs)
  let ?ds = "ds[k := set_char c False]"
  from Cons.prems have k: "k < length ds" and le: "Suc k + length cs \<le> length ?ds"
    by simp_all
  have "set_chars (enumerate k (c # cs)) ds = set_chars (enumerate (Suc k) cs) ?ds"
    using k by simp
  also have "\<dots> = Inr (take (Suc k) ?ds @ map (\<lambda>ch. set_char ch False) cs
      @ drop (Suc k + length cs) ?ds)"
    using le by (rule Cons.IH)
  also have "take (Suc k) ?ds = take k ds @ [set_char c False]"
    using k by (simp add: take_Suc_conv_app_nth)
  also have "drop (Suc k + length cs) ?ds = drop (k + length (c # cs)) ds"
    by simp
  finally show ?case by simp
qed

lemma Seg7x4_print_ok:
  assumes "length (digits d) = 4"
  shows "Seg7x4_print text d = Inr (d\<lparr>digits := map (\<lambda>ch. set_char ch False) (shown_text text)\<rparr>)"
proof -
  have "set_chars (enumerate 0 (shown_text text)) (digits d) =
      Inr (map (\<lambda>ch. set_char ch False) (shown_text text))"
    using assms set_chars_enumerate [of 0 "shown_text text" "digits d"]
    by (simp add: length_shown_text)
  then show ?thesis
    by (simp add: Seg7x4_print_def)
qed

text \<open>
  Claim C10. \<open>Seg7x4.print\<close> normalises its argument itself: the text it shows is
  \<open>str(text)\<close> with zeros (the character \<open>"0"\<close>, not a space) in front up to four
  characters when it is shorter, and its last four characters when it is longer. That text
  always has four characters, so on the four digits of the display the loop over
  \<open>enumerate(text)\<close> never raises \<open>IndexError\<close> and sets digit \<open>i\<close> to character \<open>i\<close>
  of that text, whatever the length of the argument.
\<close>

theorem Seg7x4_print_normalises:
  "shown_text text =
     (if length (str text) \<le> 4 then replicate (4 - length (str text)) (CHR ''0'') @ str text
      else drop (length (str text) - 4) (str text))
   \<and> length (shown_text text) = 4
   \<and> (length (digits d) = 4 \<longrightarrow>
        Seg7x4_print text d =
          Inr (d\<lparr>digits := map (\<lambda>ch. set_char ch False) (shown_text text)\<rparr>))
   \<and> shown_text (PyStr ''7'') = ''0007''
   \<and> shown_text (PyStr ''12345'') = ''2345''
   \<and> shown_text (PyStr []) = ''0000''
   \<and> shown_text (PyInt 42) = ''0042''"
proof (intro conjI impI)
  show "shown_text text =
     (if length (str text) \<le> 4 then replicate (4 - length (str text)) (CHR ''0'') @ str text
      else drop (length (str text) - 4) (str text))"
    by (auto simp: shown_text_def rjust_def last_n_def)
next
  show "length (shown_text text) = 4"
    by (rule length_shown_text)
next
  assume "length (digits d) = 4"
  then show "Seg7x4_print text d =
      Inr (d\<lparr>digits := map (\<lambda>ch. set_char ch False) (shown_text text)\<rparr>)"
    by (rule Seg7x4_print_ok)
next
  show "shown_text (PyStr ''7'') = ''0007''" by code_simp
next
  show "shown_text (PyStr ''12345'') = ''2345''" by code_simp
next
  show "shown_text (PyStr []) = ''0000''" by code_simp
next
  show "shown_text (PyInt 42) = ''0042''" by code_simp
qed

text \<open>On the display as \<open>__init__\<close> leaves it, a five-character argument shows its last four.\<close>

theorem Seg7x4_print_normalises_witness:
  "length (digits init_display) = 4
   \<and> Seg7x4_print (PyStr ''12345'') init_display =
       Inr (init_display\<lparr>digits := map (\<lambda>ch. set_char ch False) ''2345''\<rparr>)"
proof -
  have len: "length (digits init_display) = 4"
    by (simp add: init_display_def)
  with Seg7x4_print_normalises [of "PyStr ''12345''" init_display]
  show ?thesis by simp
qed

section \<open>Properties of one render cycle\<close>

lemma str_nat_small: "n < 10 \<Longrightarrow> str_nat n = [digit_char n]"
  by (subst str_nat.simps) simp

lemma str_nat_not_Nil: "str_nat n \<noteq> []"
  by (subst str_nat.simps) simp

lemma length_num_errors: "length (first_n 1 (str_nat n)) = 1"
  using str_nat_not_Nil [of n] by (cases "str_nat n") (simp_all add: first_n_def)

lemma code_str_lookup: "code_str (PyStr (lookup code_text)) = lookup code_text"
  by (simp add: code_str_def rjust_def last_n_def length_lookup)

lemma show_error_eq:
  "show_error num_errors code_text =
     [Print (PyStr (num_errors @ lookup code_text)), SetColon False, Sleep error_delay]"
  by (simp add: show_error_def code_str_lookup)

lemma render_cycle_Nil:
  "render_cycle [] = [Print (PyStr ''0000''), SetColon False, Sleep error_delay]"
  by (simp add: render_cycle_def show_no_errors_def)

lemma render_cycle_faults:
  "errors \<noteq> [] \<Longrightarrow>
   render_cycle errors =
     [Print (PyStr (first_n 1 (str_nat (length errors)) @ ''---'')), SetColon False,
      Sleep loop_start_delay]
     @ concat (map (show_error (first_n 1 (str_nat (length errors)))) errors)"
  by (simp add: render_cycle_def loop_start_code_def Let_def)

lemma Print_in_concat_show_error:
  "Print t \<in> set (concat (map (show_error num) errors)) \<Longrightarrow>
   \<exists>code_text \<in> set errors. t = PyStr (num @ lookup code_text)"
  by (auto simp: show_error_eq)

lemma Print_in_render_cycle:
  assumes "errors \<noteq> []" and "Print t \<in> set (render_cycle errors)"
  shows "\<exists>tail. length tail = 3 \<and> t = PyStr (first_n 1 (str_nat (length errors)) @ tail)"
proof -
  let ?num = "first_n 1 (str_nat (length errors))"
  from assms have "t = PyStr (?num @ ''---'')
      \<or> Print t \<in> set (concat (map (show_error ?num) errors))"
    by (simp add: render_cycle_faults)
  then show ?thesis
  proof
    assume "t = PyStr (?num @ ''---'')"
    then show ?thesis by simp
  next
    assume "Print t \<in> set (concat (map (show_error ?num) errors))"
    then obtain code_text where "t = PyStr (?num @ lookup code_text)"
      using Print_in_concat_show_error by blast
    then show ?thesis by (simp add: length_lookup)
  qed
qed

lemma shown_text_four: "length s = 4 \<Longrightarrow> shown_text (PyStr s) = s"
  by (simp add: shown_text_def rjust_def last_n_def)

text \<open>
  Claim C5. For a non-empty snapshot every text printed in the cycle (the loop-start frame
  and one frame per fault) is the count digit followed by three characters, and is shown
  by the display as it is. The count digit is the first character of \<open>str(len(errors))\<close>:
  for 1 to 9 faults the decimal string is that one digit, the length itself; for 10 faults
  the decimal string is \<open>"10"\<close> and the count digit is \<open>"1"\<close>.
\<close>

theorem count_digit_is_first_character:
  "errors \<noteq> [] \<Longrightarrow>
     (\<forall>t. Print t \<in> set (render_cycle errors) \<longrightarrow>
        (\<exists>tail. length tail = 3
           \<and> t = PyStr (first_n 1 (str_nat (length errors)) @ tail)
           \<and> shown_text t = first_n 1 (str_nat (length errors)) @ tail))
   \<and> length (first_n 1 (str_nat (length errors))) = 1
   \<and> (length errors \<le> 9 \<longrightarrow>
        first_n 1 (str_nat (length errors)) = [digit_char (length errors)]
        \<and> str_nat (length errors) = [digit_char (length errors)])
   \<and> (length errors = 10 \<longrightarrow>
        str_nat (length errors) = ''10'' \<and> first_n 1 (str_nat (length errors)) = ''1'')
   \<and> map digit_char [0..<10] = ''0123456789''"
proof (intro conjI allI impI)
  show "map digit_char [0..<10] = ''0123456789''"
    by code_simp
next
  fix t
  assume "errors \<noteq> []" and "Print t \<in> set (render_cycle errors)"
  then obtain tail where tail: "length tail = 3"
      "t = PyStr (first_n 1 (str_nat (length errors)) @ tail)"
    using Print_in_render_cycle by blast
  have "length (first_n 1 (str_nat (length errors)) @ tail) = 4"
    using tail(1) length_num_errors [of "length errors"] by simp
  then have "shown_text t = first_n 1 (str_nat (length errors)) @ tail"
    unfolding tail(2) by (rule shown_text_four)
  with tail show "\<exists>tail. length tail = 3
           \<and> t = PyStr (first_n 1 (str_nat (length errors)) @ tail)
           \<and> shown_text t = first_n 1 (str_nat (length errors)) @ tail"
    by blast
next
  show "length (first_n 1 (str_nat (length errors))) = 1"
    by (rule length_num_errors)
next
  assume "length errors \<le> 9"
  then show "first_n 1 (str_nat (length errors)) = [digit_char (length errors)]"
    by (simp add: first_n_def str_nat_small)
next
  assume "length errors \<le> 9"
  then show "str_nat (length errors) = [digit_char (length errors)]"
    by (simp add: str_nat_small)
next
  assume "length errors = 10"
  then have "str_nat (length errors) = str_nat 10"
    by simp
  also have "\<dots> = ''10''"
    by code_simp
  finally show "str_nat (length errors) = ''10''" .
next
  assume "length errors = 10"
  then have "first_n 1 (str_nat (length errors)) = first_n 1 (str_nat 10)"
    by simp
  also have "\<dots> = ''1''"
    by code_simp
  finally show "first_n 1 (str_nat (length errors)) = ''1''" .
qed

text \<open>Ten faults: the frame of a fault is \<open>"1207"\<close>, count digit \<open>"1"\<close>.\<close>

theorem count_digit_is_first_character_witness:
  "replicate 10 ''gps_fail'' \<noteq> []
   \<and> Print (PyStr ''1207'') \<in> set (render_cycle (replicate 10 ''gps_fail''))
   \<and> length (replicate 10 ''gps_fail'') = 10
   \<and> str_nat (length (replicate 10 ''gps_fail'')) = ''10''
   \<and> first_n 1 (str_nat (length (replicate 10 ''gps_fail''))) = ''1''
   \<and> (\<exists>tail. length tail = 3 \<and> shown_text (PyStr ''1207'') = ''1'' @ tail)"
proof -
  have ne: "replicate 10 ''gps_fail'' \<noteq> []"
    by simp
  have len: "length (replicate 10 ''gps_fail'') = 10"
    by simp
  have frame: "Print (PyStr ''1207'') \<in> set (render_cycle (replicate 10 ''gps_fail''))"
    by code_simp
  from count_digit_is_first_character [OF ne] len
  have ten: "str_nat (length (replicate 10 ''gps_fail'')) = ''10''"
    and one: "first_n 1 (str_nat (length (replicate 10 ''gps_fail''))) = ''1''"
    by blast+
  from count_digit_is_first_character [OF ne] frame
  obtain tail where "length tail = 3"
    "shown_text (PyStr ''1207'') = first_n 1 (str_nat (length (replicate 10 ''gps_fail''))) @ tail"
    by blast
  with one have "\<exists>tail. length tail = 3 \<and> shown_text (PyStr ''1207'') = ''1'' @ tail"
    by auto
  with ne len frame ten one show ?thesis
    by blast
qed

section \<open>Properties of the render loop\<close>

lemma Snapshot_eq: "Snapshot s = (length (heap s), s\<lparr>heap := heap s @ [registry s]\<rparr>)"
  by (simp add: Snapshot_def list_copy_def new_list_def registry_def)

lemma registry_after_Snapshot: "wf s \<Longrightarrow> registry (snd (Snapshot s)) = registry s"
  by (simp add: Snapshot_eq registry_def wf_def nth_append)

lemma wf_after_Snapshot: "wf s \<Longrightarrow> wf (snd (Snapshot s))"
  by (simp add: Snapshot_eq wf_def)

lemma display_loop_Cons:
  "display_loop (msgs # later) s =
     ReadErrors (registry (deliver msgs s)) # render_cycle (registry (deliver msgs s))
     @ display_loop later (snd (Snapshot (deliver msgs s)))"
  by (simp add: Snapshot_eq)

lemma render_cycle_two:
  "render_cycle [''lidar_fail'', ''gps_fail''] =
     [Print (PyStr ''2---''), SetColon False, Sleep loop_start_delay,
      Print (PyStr ''2201''), SetColon False, Sleep error_delay,
      Print (PyStr ''2207''), SetColon False, Sleep error_delay]"
  by code_simp

declare display_loop.simps(2) [simp del]

lemma is_read_hd_display_loop:
  "later \<noteq> [] \<Longrightarrow> is_read (hd (display_loop later s))"
  by (cases later) (simp_all add: display_loop_Cons)

text \<open>
  Claim C1. An iteration of \<open>display_loop\<close> that reads the list
  \<open>["lidar_fail", "gps_fail"]\<close> from the registry prints \<open>"2---"\<close>, sets the colon off and
  sleeps \<open>loop_start_delay\<close>, then prints \<open>"2201"\<close> and \<open>"2207"\<close>, each followed by the colon
  set off and a sleep of \<open>error_delay\<close>, and does nothing else. Whatever the loop does
  after that begins with a read of the registry. The delays are 0.3 and 1.0 seconds.
\<close>

theorem cycle_of_two_faults:
  "registry (deliver msgs s) = [''lidar_fail'', ''gps_fail''] \<Longrightarrow>
     display_loop (msgs # later) s =
       [ReadErrors [''lidar_fail'', ''gps_fail''],
        Print (PyStr ''2---''), SetColon False, Sleep loop_start_delay,
        Print (PyStr ''2201''), SetColon False, Sleep error_delay,
        Print (PyStr ''2207''), SetColon False, Sleep error_delay]
       @ display_loop later (snd (Snapshot (deliver msgs s)))
   \<and> (later \<noteq> [] \<longrightarrow> is_read (hd (display_loop later (snd (Snapshot (deliver msgs s))))))
   \<and> loop_start_delay = 3 / 10
   \<and> error_delay = 1"
proof (intro conjI impI)
  assume "registry (deliver msgs s) = [''lidar_fail'', ''gps_fail'']"
  then show "display_loop (msgs # later) s =
       [ReadErrors [''lidar_fail'', ''gps_fail''],
        Print (PyStr ''2---''), SetColon False, Sleep loop_start_delay,
        Print (PyStr ''2201''), SetColon False, Sleep error_delay,
        Print (PyStr ''2207''), SetColon False, Sleep error_delay]
       @ display_loop later (snd (Snapshot (deliver msgs s)))"
    by (simp only: display_loop_Cons render_cycle_two) simp
next
  assume "later \<noteq> []"
  then show "is_read (hd (display_loop later (snd (Snapshot (deliver msgs s)))))"
    by (rule is_read_hd_display_loop)
next
  show "loop_start_delay = 3 / 10"
    by (simp add: loop_start_delay_def)
next
  show "error_delay = 1"
    by (simp add: error_delay_def)
qed

text \<open>
  The payload \<open>"lidar_fail,gps_fail"\<close> delivered to the node as \<open>__init__\<close> leaves it, and
  two iterations of the loop.
\<close>

theorem cycle_of_two_faults_witness:
  "registry (deliver [''lidar_fail,gps_fail''] init_node) = [''lidar_fail'', ''gps_fail'']
   \<and> display_loop [[''lidar_fail,gps_fail''], []] init_node =
       [ReadErrors [''lidar_fail'', ''gps_fail''],
        Print (PyStr ''2---''), SetColon False, Sleep (3 / 10),
        Print (PyStr ''2201''), SetColon False, Sleep 1,
        Print (PyStr ''2207''), SetColon False, Sleep 1,
        ReadErrors [''lidar_fail'', ''gps_fail''],
        Print (PyStr ''2---''), SetColon False, Sleep (3 / 10),
        Print (PyStr ''2201''), SetColon False, Sleep 1,
        Print (PyStr ''2207''), SetColon False, Sleep 1]"
proof -
  have reg: "registry (deliver [''lidar_fail,gps_fail''] init_node) = [''lidar_fail'', ''gps_fail'']"
    by code_simp
  have reg': "registry (deliver [] (snd (Snapshot (deliver [''lidar_fail,gps_fail''] init_node))))
      = [''lidar_fail'', ''gps_fail'']"
    by code_simp
  from cycle_of_two_faults [OF reg, of "[[]]"] cycle_of_two_faults [OF reg', of "[]"]
  have "display_loop [[''lidar_fail,gps_fail''], []] init_node =
       [ReadErrors [''lidar_fail'', ''gps_fail''],
        Print (PyStr ''2---''), SetColon False, Sleep (3 / 10),
        Print (PyStr ''2201''), SetColon False, Sleep 1,
        Print (PyStr ''2207''), SetColon False, Sleep 1,
        ReadErrors [''lidar_fail'', ''gps_fail''],
        Print (PyStr ''2---''), SetColon False, Sleep (3 / 10),
        Print (PyStr ''2201''), SetColon False, Sleep 1,
        Print (PyStr ''2207''), SetColon False, Sleep 1]"
    by simp
  with reg show ?thesis by simp
qed

lemma reads_append: "reads (a @ b) = reads a @ reads b"
  by (induction a rule: reads.induct) simp_all

lemma reads_show_errors: "reads (concat (map (show_error num) errors)) = []"
  by (induction errors) (simp_all add: show_error_eq reads_append)

lemma reads_render_cycle: "reads (render_cycle errors) = []"
  by (cases "errors = []") (simp_all add: render_cycle_Nil render_cycle_faults reads_show_errors)

lemma reads_display_loop_Cons:
  "reads (display_loop (msgs # later) s) =
     registry (deliver msgs s) # reads (display_loop later (snd (Snapshot (deliver msgs s))))"
  by (simp only: display_loop_Cons reads.simps reads_append reads_render_cycle) simp

lemma length_reads_display_loop: "length (reads (display_loop sched s)) = length sched"
proof (induction sched arbitrary: s)
  case Nil
  then show ?case by simp
next
  case (Cons msgs later)
  then show ?case by (simp only: reads_display_loop_Cons) simp
qed

lemma display_loop_by_reads:
  "display_loop sched s =
     concat (map (\<lambda>errors. ReadErrors errors # render_cycle errors) (reads (display_loop sched s)))"
proof (induction sched arbitrary: s)
  case Nil
  then show ?case by simp
next
  case (Cons msgs later)
  let ?r = "registry (deliver msgs s)"
  let ?s' = "snd (Snapshot (deliver msgs s))"
  let ?f = "\<lambda>errors. ReadErrors errors # render_cycle errors"
  have "concat (map ?f (reads (display_loop (msgs # later) s))) =
      ?f ?r @ concat (map ?f (reads (display_loop later ?s')))"
    by (simp only: reads_display_loop_Cons list.map concat.simps)
  also have "\<dots> = ?f ?r @ display_loop later ?s'"
    by (simp only: Cons.IH [symmetric])
  also have "\<dots> = display_loop (msgs # later) s"
    by (simp only: display_loop_Cons) simp
  finally show ?case
    by (rule sym)
qed

lemma wf_listener_callback: "wf (listener_callback data s)"
  by (simp add: listener_callback_def Replace_def list_copy_def new_list_def wf_def)

lemma registry_listener_callback: "registry (listener_callback data s) = parse_errors data"
  by (simp add: listener_callback_def Replace_def list_copy_def new_list_def registry_def
      nth_append)

lemma deliver_snoc: "deliver (msgs @ [data]) s = listener_callback data (deliver msgs s)"
  by (simp add: deliver_def)

lemma wf_deliver: "wf s \<Longrightarrow> wf (deliver msgs s)"
  by (induction msgs rule: rev_induct) (simp_all add: deliver_def wf_listener_callback)

lemma registry_deliver:
  "registry (deliver msgs s) = (if msgs = [] then registry s else parse_errors (last msgs))"
  by (cases msgs rule: rev_cases) (simp_all add: deliver_def registry_listener_callback)

lemma reads_idle_schedule:
  "wf s \<Longrightarrow> registry s = [] \<Longrightarrow> reads (display_loop (replicate n []) s) = replicate n []"
proof (induction n arbitrary: s)
  case 0
  then show ?case by simp
next
  case (Suc n)
  have d: "deliver [] s = s"
    by (simp add: deliver_def)
  from Suc.prems have "wf (snd (Snapshot s))" "registry (snd (Snapshot s)) = []"
    by (simp_all add: wf_after_Snapshot registry_after_Snapshot)
  then have "reads (display_loop (replicate n []) (snd (Snapshot s))) = replicate n []"
    by (rule Suc.IH)
  with Suc.prems show ?case
    by (simp only: replicate_Suc reads_display_loop_Cons d)
qed

lemma concat_map_replicate: "concat (map f (replicate n x)) = concat (replicate n (f x))"
  by (induction n) simp_all


text \<open>
  Claim C8. If every read of the registry in the first iterations of the loop returns the
  empty list, each of those iterations is the read followed by one frame and nothing else:
  \<open>"0000"\<close> printed, the colon set off, a sleep of \<open>error_delay\<close>. With the registry empty
  and no update delivered this holds for any number of iterations, so the idle frame
  repeats for as long as the loop runs. The first read that returns a non-empty list ends
  it: after the idle iterations the loop prints the loop-start frame of that list.
\<close>

theorem idle_until_nonempty_read:
  "(reads (display_loop sched s) = replicate (length sched) [] \<longrightarrow>
      display_loop sched s =
        concat (replicate (length sched)
          [ReadErrors [], Print (PyStr ''0000''), SetColon False, Sleep error_delay]))
   \<and> (wf s \<and> registry s = [] \<longrightarrow> reads (display_loop (replicate n []) s) = replicate n [])
   \<and> (reads (display_loop sched s) = replicate k [] @ errors # rest \<and> errors \<noteq> [] \<longrightarrow>
        take (4 * k + 2) (display_loop sched s) =
          concat (replicate k
            [ReadErrors [], Print (PyStr ''0000''), SetColon False, Sleep error_delay])
          @ [ReadErrors errors, Print (PyStr (first_n 1 (str_nat (length errors)) @ ''---''))])"
proof (intro conjI impI)
  assume "reads (display_loop sched s) = replicate (length sched) []"
  then have "display_loop sched s =
      concat (map (\<lambda>errors. ReadErrors errors # render_cycle errors) (replicate (length sched) []))"
    using display_loop_by_reads [of sched s] by simp
  then show "display_loop sched s =
        concat (replicate (length sched)
          [ReadErrors [], Print (PyStr ''0000''), SetColon False, Sleep error_delay])"
    by (simp only: concat_map_replicate render_cycle_Nil)
next
  assume "wf s \<and> registry s = []"
  then show "reads (display_loop (replicate n []) s) = replicate n []"
    by (simp add: reads_idle_schedule)
next
  let ?idle = "[ReadErrors [], Print (PyStr ''0000''), SetColon False, Sleep error_delay]"
  let ?start = "[ReadErrors errors, Print (PyStr (first_n 1 (str_nat (length errors)) @ ''---''))]"
  assume a: "reads (display_loop sched s) = replicate k [] @ errors # rest \<and> errors \<noteq> []"
  then obtain tail where tl: "ReadErrors errors # render_cycle errors = ?start @ tail"
    by (simp add: render_cycle_faults)
  have len: "length (concat (replicate k ?idle)) = 4 * k"
    by (induction k) simp_all
  from a have "display_loop sched s =
      concat (map (\<lambda>errors. ReadErrors errors # render_cycle errors)
        (replicate k [] @ errors # rest))"
    using display_loop_by_reads [of sched s] by simp
  also have "\<dots> = concat (replicate k ?idle) @ (ReadErrors errors # render_cycle errors)
      @ concat (map (\<lambda>errors. ReadErrors errors # render_cycle errors) rest)"
    by (simp only: map_append concat_append concat_map_replicate render_cycle_Nil
        list.map concat.simps)
  also have "\<dots> = concat (replicate k ?idle) @ ?start
      @ (tail @ concat (map (\<lambda>errors. ReadErrors errors # render_cycle errors) rest))"
    by (simp only: tl append_assoc)
  finally show "take (4 * k + 2) (display_loop sched s) = concat (replicate k ?idle) @ ?start"
    using len by simp
qed


text \<open>
  From the node as \<open>__init__\<close> leaves it: three iterations with no update, an empty payload
  and a payload of a comma between blanks stay idle; the payload \<open>"gps_fail"\<close> before the
  second read ends the idle state with the frame \<open>"1---"\<close>.
\<close>

theorem idle_until_nonempty_read_witness:
  "reads (display_loop [[], [''''], ['' , '']] init_node) = replicate 3 []
   \<and> display_loop [[], [''''], ['' , '']] init_node =
       [ReadErrors [], Print (PyStr ''0000''), SetColon False, Sleep 1,
        ReadErrors [], Print (PyStr ''0000''), SetColon False, Sleep 1,
        ReadErrors [], Print (PyStr ''0000''), SetColon False, Sleep 1]
   \<and> wf init_node \<and> registry init_node = []
   \<and> reads (display_loop (replicate 2 []) init_node) = [[], []]
   \<and> reads (display_loop [[], [''gps_fail'']] init_node) = replicate 1 [] @ [''gps_fail''] # []
   \<and> take 6 (display_loop [[], [''gps_fail'']] init_node) =
       [ReadErrors [], Print (PyStr ''0000''), SetColon False, Sleep 1,
        ReadErrors [''gps_fail''], Print (PyStr ''1---'')]"
proof -
  have r3: "reads (display_loop [[], [''''], ['' , '']] init_node) = replicate (length [[], [''''], ['' , '']]) []"
    by code_simp
  have init: "wf init_node \<and> registry init_node = []"
    by (simp add: wf_def registry_def init_node_def)
  have r1: "reads (display_loop [[], [''gps_fail'']] init_node) = replicate 1 [] @ [''gps_fail''] # []
      \<and> [''gps_fail''] \<noteq> []"
    by code_simp
  have one: "first_n 1 (str_nat (length [''gps_fail''])) = ''1''"
    by code_simp
  note thm1 = idle_until_nonempty_read [of "[[], [''''], ['' , '']]" init_node 2 _ _ _]
  note thm2 = idle_until_nonempty_read [of "[[], [''gps_fail'']]" init_node 2 1 "[''gps_fail'']" "[]"]
  from thm1 r3 have a: "display_loop [[], [''''], ['' , '']] init_node =
       [ReadErrors [], Print (PyStr ''0000''), SetColon False, Sleep 1,
        ReadErrors [], Print (PyStr ''0000''), SetColon False, Sleep 1,
        ReadErrors [], Print (PyStr ''0000''), SetColon False, Sleep 1]"
    by (simp add: error_delay_def numeral_3_eq_3)
  from thm2 init have b: "reads (display_loop (replicate 2 []) init_node) = [[], []]"
    by (simp add: numeral_2_eq_2)
  from thm2 r1 have c: "take 6 (display_loop [[], [''gps_fail'']] init_node) =
       [ReadErrors [], Print (PyStr ''0000''), SetColon False, Sleep 1,
        ReadErrors [''gps_fail''], Print (PyStr ''1---'')]"
    unfolding one by (simp add: error_delay_def)
  from r3 a init b r1 c show ?thesis
    by (simp add: numeral_3_eq_3)
qed

lemma framed_append: "framed a \<Longrightarrow> framed b \<Longrightarrow> framed (a @ b)"
  by (induction a rule: framed.induct) simp_all

lemma framed_show_errors: "framed (concat (map (show_error num) errors))"
  by (induction errors) (simp_all add: show_error_eq)

lemma framed_render_cycle: "framed (render_cycle errors)"
  by (cases "errors = []") (simp_all add: render_cycle_Nil render_cycle_faults framed_show_errors)

lemma framed_display_loop: "framed (display_loop sched s)"
proof (induction sched arbitrary: s)
  case Nil
  then show ?case by simp
next
  case (Cons msgs later)
  have "framed (render_cycle (registry (deliver msgs s))
      @ display_loop later (snd (Snapshot (deliver msgs s))))"
    by (intro framed_append framed_render_cycle Cons.IH)
  then show ?case
    by (simp only: display_loop_Cons framed.simps)
qed


lemma framed_nth:
  "framed tr \<Longrightarrow> i < length tr \<Longrightarrow> tr ! i = Print t \<Longrightarrow>
   Suc i < length tr \<and> tr ! Suc i = SetColon False"
proof (induction tr arbitrary: i rule: framed.induct)
  case (2 t' state cs)
  show ?case
  proof (cases i)
    case 0
    with "2.prems" show ?thesis by simp
  next
    case (Suc j)
    show ?thesis
    proof (cases j)
      case 0
      with Suc "2.prems" show ?thesis by simp
    next
      case (Suc k)
      with \<open>i = Suc j\<close> "2.prems" "2.IH" [of k] show ?thesis by simp
    qed
  qed
qed (auto simp: nth_Cons split: nat.splits)

lemma framed_SetColon: "framed tr \<Longrightarrow> SetColon b \<in> set tr \<Longrightarrow> \<not> b"
  by (induction tr rule: framed.induct) auto

lemma render_keeps_colon_off:
  "\<forall>b. SetColon b \<in> set tr \<longrightarrow> \<not> b \<Longrightarrow> length (digits d) = 4 \<Longrightarrow> \<not> colon d \<Longrightarrow>
   \<exists>d'. render tr d = Inr d' \<and> length (digits d') = 4 \<and> \<not> colon d'"
proof (induction tr arbitrary: d)
  case Nil
  then show ?case by simp
next
  case (Cons c cs)
  from Cons.prems(1) have cs: "\<forall>b. SetColon b \<in> set cs \<longrightarrow> \<not> b"
    by auto
  show ?case
  proof (cases c)
    case (ReadErrors errors)
    with Cons.IH [OF cs Cons.prems(2,3)] show ?thesis by simp
  next
    case (Print t)
    let ?d = "d\<lparr>digits := map (\<lambda>ch. set_char ch False) (shown_text t)\<rparr>"
    from Cons.prems(2) have p: "Seg7x4_print t d = Inr ?d"
      by (rule Seg7x4_print_ok)
    from Cons.prems(3) have "\<exists>d'. render cs ?d = Inr d' \<and> length (digits d') = 4 \<and> \<not> colon d'"
      by (intro Cons.IH cs) (simp_all add: length_shown_text)
    with p Print show ?thesis by simp
  next
    case (SetColon state)
    with Cons.prems(1) have off: "\<not> state" by auto
    from Cons.prems(2) have "\<exists>d'. render cs (set_colon state d) = Inr d'
        \<and> length (digits d') = 4 \<and> \<not> colon d'"
      using off by (intro Cons.IH cs) (simp_all add: set_colon_def)
    with SetColon show ?thesis by simp
  next
    case (Sleep delay)
    with Cons.IH [OF cs Cons.prems(2,3)] show ?thesis by simp
  qed
qed

text \<open>
  Claim C9. Whatever the registry holds and whatever updates arrive, every value the loop
  passes to the colon of the display is \<open>False\<close>, and every print (idle frame, loop-start
  frame or fault frame) is followed at once by the colon being set to \<open>False\<close>. Carried out
  on the display as \<open>__init__\<close> leaves it, the calls of any prefix of the loop's trace never
  raise and leave the colon off; so does the \<open>show_no_errors\<close> of \<open>__init__\<close>.
\<close>

theorem indicator_always_off:
  "(\<forall>b. SetColon b \<in> set (display_loop sched s) \<longrightarrow> b = False)
   \<and> (\<forall>i t. i < length (display_loop sched s) \<and> display_loop sched s ! i = Print t \<longrightarrow>
         Suc i < length (display_loop sched s) \<and> display_loop sched s ! Suc i = SetColon False)
   \<and> (\<exists>d. render (take k (display_loop sched s)) init_display = Inr d \<and> colon d = False)
   \<and> (\<exists>d. render show_no_errors init_display = Inr d \<and> colon d = False)"
proof (intro conjI allI impI)
  fix b
  assume "SetColon b \<in> set (display_loop sched s)"
  with framed_display_loop [of sched s] show "b = False"
    by (auto dest: framed_SetColon)
next
  fix i t
  assume "i < length (display_loop sched s) \<and> display_loop sched s ! i = Print t"
  with framed_display_loop [of sched s]
  show "Suc i < length (display_loop sched s)" and "display_loop sched s ! Suc i = SetColon False"
    by (simp_all add: framed_nth)
next
  have init: "length (digits init_display) = 4" "\<not> colon init_display"
    by (simp_all add: init_display_def)
  have "\<forall>b. SetColon b \<in> set (take k (display_loop sched s)) \<longrightarrow> \<not> b"
    using framed_display_loop [of sched s] by (auto dest: in_set_takeD framed_SetColon)
  from render_keeps_colon_off [OF this init]
  show "\<exists>d. render (take k (display_loop sched s)) init_display = Inr d \<and> colon d = False"
    by auto
next
  have init: "length (digits init_display) = 4" "\<not> colon init_display"
    by (simp_all add: init_display_def)
  have "\<forall>b. SetColon b \<in> set show_no_errors \<longrightarrow> \<not> b"
    by (simp add: show_no_errors_def)
  from render_keeps_colon_off [OF this init]
  show "\<exists>d. render show_no_errors init_display = Inr d \<and> colon d = False"
    by auto
qed

text \<open>One fault: the loop-start frame is call 1 of the trace and call 2 sets the colon off.\<close>

theorem indicator_always_off_witness:
  "SetColon False \<in> set (display_loop [[''lidar_fail'']] init_node)
   \<and> 1 < length (display_loop [[''lidar_fail'']] init_node)
   \<and> display_loop [[''lidar_fail'']] init_node ! 1 = Print (PyStr ''1---'')
   \<and> display_loop [[''lidar_fail'']] init_node ! Suc 1 = SetColon False"
proof -
  have a: "1 < length (display_loop [[''lidar_fail'']] init_node)
      \<and> display_loop [[''lidar_fail'']] init_node ! 1 = Print (PyStr ''1---'')"
    by code_simp
  with indicator_always_off [of "[[''lidar_fail'']]" init_node]
  have b: "Suc 1 < length (display_loop [[''lidar_fail'']] init_node)
      \<and> display_loop [[''lidar_fail'']] init_node ! Suc 1 = SetColon False"
    by blast
  then have "SetColon False \<in> set (display_loop [[''lidar_fail'']] init_node)"
    by (metis nth_mem)
  with a b show ?thesis by blast
qed

section \<open>Properties of the ingestion\<close>

lemma split_no_sep: "sep \<notin> set s \<Longrightarrow> split sep s = [s]"
proof -
  assume "sep \<notin> set s"
  then have "dropWhile (\<lambda>c. c \<noteq> sep) s = []"
    by auto
  then show ?thesis
    by (subst split.simps) (simp only: list.case)
qed

lemma split_Nil: "split sep [] = [[]]"
  by (simp add: split_no_sep)

lemma split_Cons_sep: "split sep (sep # s) = [] # split sep s"
  by (subst split.simps) simp

lemma split_not_Nil: "split sep s \<noteq> []"
  by (subst split.simps) (simp split: list.split)

lemma split_Cons_other:
  assumes "c \<noteq> sep"
  shows "split sep (c # s) = (c # hd (split sep s)) # tl (split sep s)"
proof (cases "dropWhile (\<lambda>c. c \<noteq> sep) s")
  case Nil
  then have "sep \<notin> set s"
    by auto
  with assms show ?thesis
    by (simp add: split_no_sep)
next
  case (Cons x rest)
  with assms have "split sep (c # s) = (c # takeWhile (\<lambda>c. c \<noteq> sep) s) # split sep rest"
    by (subst split.simps) simp
  moreover from Cons have "split sep s = takeWhile (\<lambda>c. c \<noteq> sep) s # split sep rest"
    by (subst split.simps) simp
  ultimately show ?thesis by simp
qed

lemma split_append_sep: "split sep (a @ sep # b) = split sep a @ split sep b"
proof (induction a)
  case Nil
  then show ?case by (simp add: split_Cons_sep split_Nil)
next
  case (Cons c a)
  show ?case
  proof (cases "c = sep")
    case True
    with Cons show ?thesis by (simp add: split_Cons_sep)
  next
    case False
    with Cons split_not_Nil [of sep a] show ?thesis
      by (simp add: split_Cons_other)
  qed
qed

lemma sep_notin_split: "p \<in> set (split sep s) \<Longrightarrow> sep \<notin> set p"
proof (induction s arbitrary: p)
  case Nil
  then show ?case by (simp add: split_Nil)
next
  case (Cons c s)
  show ?case
  proof (cases "c = sep")
    case True
    with Cons show ?thesis by (auto simp: split_Cons_sep)
  next
    case False
    obtain x xs where X: "split sep s = x # xs"
      using split_not_Nil [of sep s] by (cases "split sep s") auto
    with False Cons show ?thesis
      by (auto simp: split_Cons_other)
  qed
qed

lemma set_split: "(\<Union>p\<in>set (split sep s). set p) = set s - {sep}"
proof (induction s)
  case Nil
  then show ?case by (simp add: split_Nil)
next
  case (Cons c s)
  show ?case
  proof (cases "c = sep")
    case True
    with Cons show ?thesis by (simp add: split_Cons_sep)
  next
    case False
    obtain x xs where X: "split sep s = x # xs"
      using split_not_Nil [of sep s] by (cases "split sep s") auto
    with False Cons show ?thesis
      by (auto simp: split_Cons_other)
  qed
qed

lemma length_split: "length (split sep s) = Suc (length (filter (\<lambda>c. c = sep) s))"
proof (induction s)
  case Nil
  then show ?case by (simp add: split_Nil)
next
  case (Cons c s)
  show ?case
  proof (cases "c = sep")
    case True
    with Cons show ?thesis by (simp add: split_Cons_sep)
  next
    case False
    with Cons split_not_Nil [of sep s] show ?thesis
      by (simp add: split_Cons_other)
  qed
qed

lemma comma_not_space: "\<not> isspace (CHR '','')"
  by (simp add: isspace_def)

lemma strip_lead_space: "isspace c \<Longrightarrow> strip (c # s) = strip s"
  by (simp add: strip_def lstrip_def)

lemma strip_trail_space:
  assumes "isspace c"
  shows "strip (s @ [c]) = strip s"
proof (cases "\<forall>x\<in>set s. isspace x")
  case True
  then have a: "dropWhile isspace s = []"
    by simp
  from True assms have b: "dropWhile isspace (s @ [c]) = []"
    by simp
  show ?thesis
    unfolding strip_def lstrip_def a b ..
next
  case False
  then have "dropWhile isspace (s @ [c]) = dropWhile isspace s @ [c]"
    by (simp add: dropWhile_append)
  with assms show ?thesis
    by (simp add: strip_def lstrip_def rstrip_def)
qed

lemma strip_decompose:
  "s = takeWhile isspace s @ strip s @ rev (takeWhile isspace (rev (lstrip s)))"
proof -
  have "rev (lstrip s) = takeWhile isspace (rev (lstrip s)) @ dropWhile isspace (rev (lstrip s))"
    by simp
  then have "rev (rev (lstrip s)) =
      rev (takeWhile isspace (rev (lstrip s)) @ dropWhile isspace (rev (lstrip s)))"
    by (rule arg_cong)
  then have "lstrip s =
      rev (dropWhile isspace (rev (lstrip s))) @ rev (takeWhile isspace (rev (lstrip s)))"
    by (simp only: rev_rev_ident rev_append)
  then have "lstrip s = strip s @ rev (takeWhile isspace (rev (lstrip s)))"
    by (simp only: strip_def rstrip_def)
  moreover have "s = takeWhile isspace s @ lstrip s"
    by (simp add: lstrip_def)
  ultimately show ?thesis by simp
qed

lemma strip_between_spaces:
  "\<exists>l r. s = l @ strip s @ r \<and> list_all isspace l \<and> list_all isspace r"
proof -
  have "list_all isspace (takeWhile isspace s)"
    by (auto simp: list_all_iff dest: set_takeWhileD)
  moreover have "list_all isspace (rev (takeWhile isspace (rev (lstrip s))))"
    by (auto simp: list_all_iff dest: set_takeWhileD)
  ultimately show ?thesis
    using strip_decompose [of s] by blast
qed

lemma strip_ends:
  assumes "strip s \<noteq> []"
  shows "\<not> isspace (hd (strip s))" and "\<not> isspace (last (strip s))"
proof -
  let ?l = "lstrip s"
  from assms have l: "?l \<noteq> []"
    by (auto simp: strip_def rstrip_def)
  from assms have d: "dropWhile isspace (rev ?l) \<noteq> []"
    by (simp add: strip_def rstrip_def)
  have "last (strip s) = hd (dropWhile isspace (rev ?l))"
    using d by (simp add: strip_def rstrip_def last_rev)
  with d show "\<not> isspace (last (strip s))"
    by (simp add: hd_dropWhile)
  obtain r where r: "?l = strip s @ r"
    using strip_decompose [of s] 
    by (metis append_eq_append_conv lstrip_def takeWhile_dropWhile_id)
  with assms have "hd (strip s) = hd ?l"
    by (metis hd_append2)
  moreover have "\<not> isspace (hd ?l)"
    using l unfolding lstrip_def by (rule hd_dropWhile)
  ultimately show "\<not> isspace (hd (strip s))"
    by simp
qed

lemma strip_eq_Nil: "strip s = [] \<longleftrightarrow> (\<forall>c\<in>set s. isspace c)"
proof
  assume "strip s = []"
  with strip_between_spaces [of s] show "\<forall>c\<in>set s. isspace c"
    by (auto simp: list_all_iff)
next
  assume "\<forall>c\<in>set s. isspace c"
  then have "lstrip s = []"
    by (simp add: lstrip_def)
  then show "strip s = []"
    by (simp add: strip_def rstrip_def)
qed

lemma strip_fixed:
  assumes "u \<noteq> []" and "\<not> isspace (hd u)" and "\<not> isspace (last u)"
  shows "strip u = u"
proof -
  from assms(1,2) have "lstrip u = u"
    by (cases u) (simp_all add: lstrip_def)
  moreover from assms(1,3) have "rstrip u = u"
    by (cases u rule: rev_cases) (simp_all add: rstrip_def)
  ultimately show ?thesis
    by (simp add: strip_def)
qed

lemma strip_idem: "strip (strip s) = strip s"
proof (cases "strip s = []")
  case True
  have "strip [] = []"
    by (simp add: strip_def lstrip_def rstrip_def)
  then show ?thesis
    unfolding True .
next
  case False
  then show ?thesis
    by (intro strip_fixed strip_ends)
qed


lemma spec_parse_append_comma:
  "spec_parse (a @ CHR '','' # b) = spec_parse a @ spec_parse b"
  by (simp add: spec_parse_def split_append_sep)

lemma spec_parse_token:
  "CHR '','' \<notin> set t \<Longrightarrow> spec_parse t = (if strip t = [] then [] else [strip t])"
  by (simp add: spec_parse_def split_no_sep)

lemma spec_parse_lead_space:
  assumes "isspace c"
  shows "spec_parse (c # s) = spec_parse s"
proof -
  from assms have c: "c \<noteq> CHR '',''"
    using comma_not_space by auto
  obtain x xs where X: "split (CHR '','') s = x # xs"
    using split_not_Nil [of "CHR '',''" s] by (cases "split (CHR '','') s") auto
  with c have "split (CHR '','') (c # s) = (c # x) # xs"
    by (simp add: split_Cons_other)
  with X assms show ?thesis
    by (simp add: spec_parse_def strip_lead_space)
qed

lemma spec_parse_trail_space:
  assumes "isspace c"
  shows "spec_parse (s @ [c]) = spec_parse s"
proof -
  from assms have c: "c \<noteq> CHR '',''"
    using comma_not_space by auto
  have token: "spec_parse (t @ [c]) = spec_parse t" if "CHR '','' \<notin> set t" for t
    using that c assms by (simp add: spec_parse_token strip_trail_space)
  show ?thesis
  proof (cases "CHR '','' \<in> set s")
    case False
    then show ?thesis by (rule token)
  next
    case True
    then obtain a b where ab: "s = a @ CHR '','' # b" and b: "CHR '','' \<notin> set b"
      using split_list_last [of "CHR '',''" s] by blast
    have "spec_parse (s @ [c]) = spec_parse (a @ CHR '','' # (b @ [c]))"
      by (simp add: ab)
    also have "\<dots> = spec_parse a @ spec_parse (b @ [c])"
      by (rule spec_parse_append_comma)
    also have "\<dots> = spec_parse a @ spec_parse b"
      using b by (simp add: token)
    also have "\<dots> = spec_parse s"
      by (simp add: ab spec_parse_append_comma)
    finally show ?thesis .
  qed
qed

lemma spec_parse_lead_spaces: "list_all isspace w \<Longrightarrow> spec_parse (w @ s) = spec_parse s"
  by (induction w) (simp_all add: spec_parse_lead_space)

lemma spec_parse_trail_spaces: "list_all isspace w \<Longrightarrow> spec_parse (s @ w) = spec_parse s"
proof (induction w rule: rev_induct)
  case Nil
  then show ?case by simp
next
  case (snoc c w)
  then have "spec_parse ((s @ w) @ [c]) = spec_parse (s @ w)"
    by (intro spec_parse_trail_space) simp
  with snoc show ?case by simp
qed

lemma spec_parse_strip: "spec_parse (strip s) = spec_parse s"
proof -
  obtain l r where s: "s = l @ strip s @ r" and l: "list_all isspace l" and r: "list_all isspace r"
    using strip_between_spaces [of s] by blast
  have "spec_parse (l @ (strip s @ r)) = spec_parse (strip s @ r)"
    using l by (rule spec_parse_lead_spaces)
  also have "\<dots> = spec_parse (strip s)"
    using r by (rule spec_parse_trail_spaces)
  finally show ?thesis
    using s by simp
qed

lemma parse_errors_eq_spec_parse: "parse_errors data = spec_parse data"
proof -
  have "parse_errors data = spec_parse (strip data)"
    by (simp add: parse_errors_def spec_parse_def filter_map comp_def)
  then show ?thesis
    by (simp add: spec_parse_strip)
qed

lemma spec_parse_eq_Nil:
  "spec_parse s = [] \<longleftrightarrow> (\<forall>c\<in>set s. c = CHR '','' \<or> isspace c)"
proof -
  have "spec_parse s = [] \<longleftrightarrow> (\<forall>p\<in>set (split (CHR '','') s). \<forall>c\<in>set p. isspace c)"
    by (simp add: spec_parse_def filter_empty_conv strip_eq_Nil)
  also have "\<dots> \<longleftrightarrow> (\<forall>c\<in>(\<Union>p\<in>set (split (CHR '','') s). set p). isspace c)"
    by blast
  also have "\<dots> \<longleftrightarrow> (\<forall>c\<in>set s. c = CHR '','' \<or> isspace c)"
    unfolding set_split by blast
  finally show ?thesis .
qed

lemma length_spec_parse:
  "length (spec_parse s) \<le> Suc (length (filter (\<lambda>c. c = CHR '','') s))"
proof -
  have "length (spec_parse s) \<le> length (map strip (split (CHR '','') s))"
    unfolding spec_parse_def by (rule length_filter_le)
  then show ?thesis
    by (simp add: length_split)
qed

lemma spec_parse_tokens:
  assumes "t \<in> set (spec_parse s)"
  shows "t \<noteq> []" and "strip t = t" and "CHR '','' \<notin> set t"
proof -
  from assms obtain p where p: "p \<in> set (split (CHR '','') s)" and t: "t = strip p" "t \<noteq> []"
    by (auto simp: spec_parse_def)
  show "t \<noteq> []" by fact
  show "strip t = t"
    by (simp add: t strip_idem)
  obtain l r where "p = l @ strip p @ r"
    using strip_between_spaces [of p] by blast
  then have "set t \<subseteq> set p"
    using t by (metis Un_upper1 Un_upper2 set_append subset_trans)
  with sep_notin_split [OF p] show "CHR '','' \<notin> set t"
    by auto
qed


lemma listener_callback_no_faults:
  "parse_errors data = [] \<Longrightarrow> listener_callback data s = listener_callback [] s"
proof -
  have "parse_errors [] = []"
    by code_simp
  then show "parse_errors data = [] \<Longrightarrow> listener_callback data s = listener_callback [] s"
    by (simp add: listener_callback_def)
qed

text \<open>
  Claim C7. For every payload the list built by \<open>listener_callback\<close> is what the rule of the
  specification gives: split on the comma, trim each token, drop the empty ones (the
  strip of the whole payload that the code does first changes nothing). Trimming removes
  whitespace at the two ends only and leaves the other characters, and so their case, as
  they are. The tokens of \<open>a\<close> come before those of \<open>b\<close> in the result for \<open>a,b\<close>, and each
  token is kept, a repeated one too. Every token of the result is non-empty, trimmed and
  free of commas; there are at most as many as commas plus one. The result is empty
  exactly when the payload holds nothing but commas and whitespace, and then the node is
  left in the very state the empty payload leaves it in: the registry holds no fault and
  the next cycle is the idle frame. No step of the parse can raise.
\<close>

theorem parse_errors_rule:
  "parse_errors data = spec_parse data
   \<and> parse_errors (a @ '','' @ b) = parse_errors a @ parse_errors b
   \<and> (CHR '','' \<notin> set t \<longrightarrow> parse_errors t = (if strip t = [] then [] else [strip t]))
   \<and> (\<exists>l r. t = l @ strip t @ r \<and> list_all isspace l \<and> list_all isspace r)
   \<and> (strip t \<noteq> [] \<longrightarrow> \<not> isspace (hd (strip t)) \<and> \<not> isspace (last (strip t)))
   \<and> (\<forall>tok\<in>set (parse_errors data). tok \<noteq> [] \<and> strip tok = tok \<and> CHR '','' \<notin> set tok)
   \<and> length (parse_errors data) \<le> Suc (length (filter (\<lambda>c. c = CHR '','') data))
   \<and> (parse_errors data = [] \<longleftrightarrow> (\<forall>c\<in>set data. c = CHR '','' \<or> isspace c))
   \<and> (parse_errors data = [] \<longrightarrow>
        listener_callback data s = listener_callback [] s
        \<and> registry (listener_callback data s) = []
        \<and> render_cycle (registry (listener_callback data s)) =
            [Print (PyStr ''0000''), SetColon False, Sleep error_delay])
   \<and> parse_errors [] = []
   \<and> parse_errors '',, ,'' = []
   \<and> parse_errors '' GPS_fail, lidar_fail,,GPS_fail '' = [''GPS_fail'', ''lidar_fail'', ''GPS_fail'']"
proof (intro conjI impI ballI)
  show "parse_errors data = spec_parse data"
    by (rule parse_errors_eq_spec_parse)
next
  show "parse_errors (a @ '','' @ b) = parse_errors a @ parse_errors b"
    by (simp add: parse_errors_eq_spec_parse spec_parse_append_comma)
next
  assume "CHR '','' \<notin> set t"
  then have "spec_parse t = (if strip t = [] then [] else [strip t])"
    by (rule spec_parse_token)
  then show "parse_errors t = (if strip t = [] then [] else [strip t])"
    by (simp only: parse_errors_eq_spec_parse)
next
  show "\<exists>l r. t = l @ strip t @ r \<and> list_all isspace l \<and> list_all isspace r"
    by (rule strip_between_spaces)
next
  assume "strip t \<noteq> []"
  then show "\<not> isspace (hd (strip t))" and "\<not> isspace (last (strip t))"
    by (rule strip_ends)+
next
  fix tok
  assume "tok \<in> set (parse_errors data)"
  then have "tok \<in> set (spec_parse data)"
    by (simp only: parse_errors_eq_spec_parse)
  then show "tok \<noteq> []" and "strip tok = tok" and "CHR '','' \<notin> set tok"
    by (rule spec_parse_tokens)+
next
  show "length (parse_errors data) \<le> Suc (length (filter (\<lambda>c. c = CHR '','') data))"
    by (simp only: parse_errors_eq_spec_parse length_spec_parse)
next
  show "parse_errors data = [] \<longleftrightarrow> (\<forall>c\<in>set data. c = CHR '','' \<or> isspace c)"
    by (simp only: parse_errors_eq_spec_parse spec_parse_eq_Nil)
next
  assume "parse_errors data = []"
  then show "listener_callback data s = listener_callback [] s"
    by (rule listener_callback_no_faults)
next
  assume "parse_errors data = []"
  then show "registry (listener_callback data s) = []"
    by (simp add: registry_listener_callback)
next
  assume "parse_errors data = []"
  then show "render_cycle (registry (listener_callback data s)) =
      [Print (PyStr ''0000''), SetColon False, Sleep error_delay]"
    by (simp add: registry_listener_callback render_cycle_Nil)
next
  show "parse_errors [] = []"
    by code_simp
next
  show "parse_errors '',, ,'' = []"
    by code_simp
next
  show "parse_errors '' GPS_fail, lidar_fail,,GPS_fail '' = [''GPS_fail'', ''lidar_fail'', ''GPS_fail'']"
    by code_simp
qed

text \<open>
  A token between blanks, a token after another one, and a payload of a comma between
  blanks, delivered to the node as \<open>__init__\<close> leaves it.
\<close>

theorem parse_errors_rule_witness:
  "CHR '','' \<notin> set '' gps_fail ''
   \<and> parse_errors '' gps_fail '' = [''gps_fail'']
   \<and> strip '' gps_fail '' \<noteq> []
   \<and> \<not> isspace (hd (strip '' gps_fail ''))
   \<and> ''gps_fail'' \<in> set (parse_errors ''x, gps_fail'')
   \<and> strip ''gps_fail'' = ''gps_fail''
   \<and> parse_errors '' , '' = []
   \<and> listener_callback '' , '' init_node = listener_callback [] init_node
   \<and> registry (listener_callback '' , '' init_node) = []"
proof -
  have nocomma: "CHR '','' \<notin> set '' gps_fail ''"
    by simp
  have s: "strip '' gps_fail '' = ''gps_fail''"
    by code_simp
  have tok: "''gps_fail'' \<in> set (parse_errors ''x, gps_fail'')"
    by code_simp
  have empty: "parse_errors '' , '' = []"
    by code_simp
  note t1 = parse_errors_rule [of "''x, gps_fail''" _ _ "'' gps_fail ''" init_node]
  note t2 = parse_errors_rule [of "'' , ''" _ _ "'' gps_fail ''" init_node]
  from t1 nocomma s have a: "parse_errors '' gps_fail '' = [''gps_fail'']"
    by simp
  from t1 s have b: "\<not> isspace (hd (strip '' gps_fail ''))"
    by simp
  from t1 tok have c: "strip ''gps_fail'' = ''gps_fail''"
    by blast
  from t2 empty have d: "listener_callback '' , '' init_node = listener_callback [] init_node
      \<and> registry (listener_callback '' , '' init_node) = []"
    by blast
  from s have ne: "strip '' gps_fail '' \<noteq> []"
    by simp
  from nocomma a ne b tok c empty d show ?thesis
    by blast
qed

section \<open>Properties of the registry\<close>

lemma snapshot_value_registry: "snapshot_value s = registry s"
  by (simp add: snapshot_value_def Snapshot_eq)

lemma Replace_eq:
  "Replace newList s = \<lparr>heap = heap s @ [heap s ! newList], active_errors = length (heap s)\<rparr>"
  by (simp add: Replace_def list_copy_def new_list_def)

lemma registry_Replace: "registry (Replace newList s) = heap s ! newList"
  by (simp add: Replace_eq registry_def)

lemma registry_mutate_other:
  "a \<noteq> active_errors s \<Longrightarrow> registry (mutate a xs s) = registry s"
  by (simp add: registry_def mutate_def)

lemma registry_mutations:
  "a \<noteq> active_errors s \<Longrightarrow>
   registry (foldl (\<lambda>s xs. mutate a xs s) s changes) = registry s"
proof (induction changes arbitrary: s)
  case Nil
  then show ?case by simp
next
  case (Cons xs changes)
  from Cons.prems have "a \<noteq> active_errors (mutate a xs s)"
    by (simp add: mutate_def)
  then have "registry (foldl (\<lambda>s xs. mutate a xs s) (mutate a xs s) changes)
      = registry (mutate a xs s)"
    by (rule Cons.IH)
  with Cons.prems show ?case
    by (simp add: registry_mutate_other)
qed

text \<open>
  Claim C2. After \<open>Replace\<close> with the caller's list (any list object of the heap), the list
  \<open>Snapshot\<close> returns has the elements of the caller's list as they were at the call, in
  the same order. The registry refers to an object other than the caller's, so whatever
  the caller writes into its own list afterwards, any number of times, the snapshot is
  the same; an earlier snapshot does not change a later one, and a snapshot is itself a
  new object, not the one the registry holds. For \<open>listener_callback\<close> the snapshot is the
  parsed payload.
\<close>

theorem snapshot_after_replace:
  "newList < length (heap s) \<Longrightarrow>
     snapshot_value (Replace newList s) = heap s ! newList
   \<and> active_errors (Replace newList s) \<noteq> newList
   \<and> snapshot_value (foldl (\<lambda>s xs. mutate newList xs s) (Replace newList s) changes)
       = heap s ! newList
   \<and> snapshot_value (snd (Snapshot (Replace newList s))) = heap s ! newList
   \<and> fst (Snapshot (Replace newList s)) \<noteq> active_errors (Replace newList s)
   \<and> snapshot_value (listener_callback data s) = parse_errors data"
proof (intro conjI)
  assume a: "newList < length (heap s)"
  show "snapshot_value (Replace newList s) = heap s ! newList"
    by (simp add: snapshot_value_registry registry_Replace)
  from a show other: "active_errors (Replace newList s) \<noteq> newList"
    by (simp add: Replace_eq)
  from other have "newList \<noteq> active_errors (Replace newList s)"
    by simp
  then show "snapshot_value (foldl (\<lambda>s xs. mutate newList xs s) (Replace newList s) changes)
       = heap s ! newList"
    by (simp add: snapshot_value_registry registry_mutations registry_Replace)
  have "wf (Replace newList s)"
    by (simp add: wf_def Replace_eq)
  then show "snapshot_value (snd (Snapshot (Replace newList s))) = heap s ! newList"
    by (simp add: snapshot_value_registry registry_after_Snapshot registry_Replace)
  show "fst (Snapshot (Replace newList s)) \<noteq> active_errors (Replace newList s)"
    by (simp add: Snapshot_eq Replace_eq)
  show "snapshot_value (listener_callback data s) = parse_errors data"
    by (simp add: snapshot_value_registry registry_listener_callback)
qed

text \<open>
  The caller's list at address 1 is replaced by another list after the call: the caller's
  object has changed, the snapshot has not.
\<close>

theorem snapshot_after_replace_witness:
  "(1::nat) < length (heap \<lparr>heap = [[], [''gps_fail'', ''imu_com'']], active_errors = 0\<rparr>)
   \<and> snapshot_value (Replace 1 \<lparr>heap = [[], [''gps_fail'', ''imu_com'']], active_errors = 0\<rparr>)
       = [''gps_fail'', ''imu_com'']
   \<and> snapshot_value (mutate 1 [''other'']
         (Replace 1 \<lparr>heap = [[], [''gps_fail'', ''imu_com'']], active_errors = 0\<rparr>))
       = [''gps_fail'', ''imu_com'']
   \<and> heap (mutate 1 [''other'']
         (Replace 1 \<lparr>heap = [[], [''gps_fail'', ''imu_com'']], active_errors = 0\<rparr>)) ! 1
       = [''other'']"
proof -
  let ?s = "\<lparr>heap = [[], [''gps_fail'', ''imu_com'']], active_errors = 0\<rparr>"
  have lt: "(1::nat) < length (heap ?s)"
    by simp
  have changed: "heap (mutate 1 [''other''] (Replace 1 ?s)) ! 1 = [''other'']"
    by (simp add: mutate_def Replace_eq)
  from snapshot_after_replace [OF lt, of "[[''other'']]"] lt changed
  show ?thesis by simp
qed

section \<open>Properties of the two threads\<close>

lemma inv_init: "inv payloads (init_config payloads)"
  by (simp add: inv_def init_config_def init_node_def)

lemmas step_defs =
  inv_def listener_step_def cycler_step_def new_list_def copy_finished_def copy_elem_def

lemma inv_listener_step: "inv payloads c \<Longrightarrow> inv payloads (listener_step c)"
  apply (cases "lpc c"; cases "cpc c")
  apply (auto simp: step_defs Let_def nth_append nth_list_update take_Suc_conv_app_nth
      less_Suc_eq split: list.splits if_splits)
  apply metis+
  done

lemma inv_cycler_step: "inv payloads c \<Longrightarrow> inv payloads (cycler_step c)"
  apply (cases "lpc c"; cases "cpc c")
  apply (auto simp: step_defs Let_def nth_append nth_list_update take_Suc_conv_app_nth
      less_Suc_eq split: list.splits if_splits)
  apply metis+
  done

lemma inv_step: "inv payloads c \<Longrightarrow> inv payloads (step t c)"
  by (cases t) (simp_all add: inv_listener_step inv_cycler_step)

lemma run_snoc: "run (sched @ [t]) c = step t (run sched c)"
  by (simp add: run_def)

lemma inv_run: "inv payloads c \<Longrightarrow> inv payloads (run sched c)"
  by (induction sched rule: rev_induct) (simp_all add: run_def inv_step)

lemma inv_reachable: "inv payloads (run sched (init_config payloads))"
  by (intro inv_run inv_init)

lemma inv_Done:
  "inv payloads c \<Longrightarrow> cpc c = C_Done errors \<Longrightarrow>
   heap (mem c) ! errors \<in> insert [] (parse_errors ` set payloads)"
  apply (cases "lpc c")
  apply (auto simp: inv_def Let_def)
  done

lemma inv_exclusive: "inv payloads c \<Longrightarrow> \<not> (lholds (lpc c) \<and> cholds (cpc c))"
  by (auto simp: inv_def Let_def)

text \<open>
  Claim C3. Take any payloads, delivered in order to \<open>listener_callback\<close>, and any schedule
  of the steps of the listener and of one pass of the display thread over its snapshot.
  If the pass has finished, the list bound to \<open>errors\<close> is the empty list of \<open>__init__\<close> or
  the list parsed from one of the payloads, that is the argument of one \<open>Replace\<close>, whole:
  it is never made of elements of two of them. The proof rests on the invariant \<open>inv\<close>: a
  list is written only while it is being built by the thread that holds the lock, and the
  registry refers to it only once it is complete.
\<close>

theorem snapshot_never_torn:
  "cpc (run sched (init_config payloads)) = C_Done errors \<Longrightarrow>
     heap (mem (run sched (init_config payloads))) ! errors
       \<in> insert [] (parse_errors ` set payloads)"
  using inv_reachable by (rule inv_Done)

text \<open>
  Two payloads. The display thread is refused the lock while the listener stores the first
  list, copies that list while the listener has parsed the second payload and waits for
  the lock, and returns the first list.
\<close>

theorem snapshot_never_torn_witness:
  "cpc (run [Listener, Listener, Cycler, Listener, Listener, Listener, Cycler,
             Listener, Listener, Listener, Listener, Cycler, Cycler, Cycler, Cycler,
             Listener, Listener, Cycler, Cycler]
          (init_config [''lidar_fail,gps_fail'', ''imu_com''])) = C_Done 4
   \<and> heap (mem (run [Listener, Listener, Cycler, Listener, Listener, Listener, Cycler,
             Listener, Listener, Listener, Listener, Cycler, Cycler, Cycler, Cycler,
             Listener, Listener, Cycler, Cycler]
          (init_config [''lidar_fail,gps_fail'', ''imu_com'']))) ! 4
       = [''lidar_fail'', ''gps_fail'']
   \<and> [''lidar_fail'', ''gps_fail'']
       \<in> insert [] (parse_errors ` set [''lidar_fail,gps_fail'', ''imu_com''])"
proof -
  let ?sched = "[Listener, Listener, Cycler, Listener, Listener, Listener, Cycler,
             Listener, Listener, Listener, Listener, Cycler, Cycler, Cycler, Cycler,
             Listener, Listener, Cycler, Cycler]"
  let ?c = "run ?sched (init_config [''lidar_fail,gps_fail'', ''imu_com''])"
  have fin: "cpc ?c = C_Done 4"
    by code_simp
  have val: "heap (mem ?c) ! 4 = [''lidar_fail'', ''gps_fail'']"
    by code_simp
  from snapshot_never_torn [OF fin] val fin show ?thesis
    by simp
qed

text \<open>
  Run alone, with the lock free, each thread finishes, and what it has done is the block
  of the sequential model: the display thread's pass is \<open>Snapshot\<close>, the listener's
  handling of a payload is \<open>listener_callback\<close>.
\<close>

lemma run_Cons: "run (t # sched) c = run sched (step t c)"
  by (simp add: run_def)

lemma cycler_copy_loop:
  "cpc c = C_Copying src new \<Longrightarrow> src \<noteq> new \<Longrightarrow> new < length (heap (mem c)) \<Longrightarrow>
   heap (mem c) ! new = take j (heap (mem c) ! src) \<Longrightarrow> j \<le> length (heap (mem c) ! src) \<Longrightarrow>
   k = length (heap (mem c) ! src) - j \<Longrightarrow>
   run (replicate k Cycler) c =
     c\<lparr>mem := (mem c)\<lparr>heap := (heap (mem c))[new := heap (mem c) ! src]\<rparr>\<rparr>"
proof (induction k arbitrary: c j)
  case 0
  then have "heap (mem c) ! new = heap (mem c) ! src"
    by simp
  then have "(heap (mem c))[new := heap (mem c) ! src] = heap (mem c)"
    by (metis list_update_id)
  then show ?case
    by (simp add: run_def)
next
  case (Suc k)
  let ?h = "heap (mem c)"
  let ?c = "c\<lparr>mem := (mem c)\<lparr>heap := ?h[new := take (Suc j) (?h ! src)]\<rparr>\<rparr>"
  from Suc.prems have j: "j < length (?h ! src)"
    by simp
  with Suc.prems have len: "length (?h ! new) = j"
    by simp
  from Suc.prems j len have "step Cycler c = ?c"
    by (simp add: cycler_step_def copy_finished_def copy_elem_def take_Suc_conv_app_nth)
  moreover from Suc.prems j have "run (replicate k Cycler) ?c =
      ?c\<lparr>mem := (mem ?c)\<lparr>heap := (heap (mem ?c))[new := heap (mem ?c) ! src]\<rparr>\<rparr>"
    by (intro Suc.IH [where j = "Suc j"]) simp_all
  ultimately have "run (replicate k Cycler) (step Cycler c) =
      c\<lparr>mem := (mem c)\<lparr>heap := ?h[new := ?h ! src]\<rparr>\<rparr>"
    using Suc.prems(2) by simp
  then show ?case
    by (simp only: replicate_Suc run_Cons)
qed

lemma cycler_alone:
  assumes "cpc c = C_Start" and "lock c = None" and "active_errors (mem c) < length (heap (mem c))"
  shows "run (replicate (length (registry (mem c)) + 4) Cycler) c =
     c\<lparr>mem := snd (Snapshot (mem c)), cpc := C_Done (fst (Snapshot (mem c)))\<rparr>"
proof -
  let ?h = "heap (mem c)"
  let ?a = "active_errors (mem c)"
  let ?n = "length ?h"
  let ?k = "length (registry (mem c))"
  let ?c2 = "c\<lparr>mem := (mem c)\<lparr>heap := ?h @ [[]]\<rparr>, lock := Some Cycler, cpc := C_Copying ?a ?n\<rparr>"
  let ?c3 = "c\<lparr>mem := (mem c)\<lparr>heap := ?h @ [registry (mem c)]\<rparr>, lock := Some Cycler,
      cpc := C_Copying ?a ?n\<rparr>"
  have e: "?k + 4 = 2 + (?k + 2)"
    by arith
  have "replicate (?k + 4) Cycler = replicate (2 + (?k + 2)) Cycler"
    by (simp only: e)
  also have "\<dots> = replicate 2 Cycler @ replicate ?k Cycler @ replicate 2 Cycler"
    by (simp only: replicate_add)
  also have "replicate 2 Cycler = [Cycler, Cycler]"
    by (simp add: numeral_2_eq_2)
  finally have split:
    "replicate (?k + 4) Cycler = [Cycler, Cycler] @ replicate ?k Cycler @ [Cycler, Cycler]" .
  have two: "run [Cycler, Cycler] c = ?c2"
    using assms by (simp add: run_def cycler_step_def new_list_def)
  have "run (replicate ?k Cycler) ?c2 =
      ?c2\<lparr>mem := (mem ?c2)\<lparr>heap := (heap (mem ?c2))[?n := heap (mem ?c2) ! ?a]\<rparr>\<rparr>"
    using assms by (intro cycler_copy_loop [where j = 0]) (simp_all add: nth_append registry_def)
  also have "\<dots> = ?c3"
    using assms by (simp add: nth_append registry_def)
  finally have loop: "run (replicate ?k Cycler) ?c2 = ?c3" .
  have last: "run [Cycler, Cycler] ?c3 =
      c\<lparr>mem := snd (Snapshot (mem c)), cpc := C_Done (fst (Snapshot (mem c)))\<rparr>"
    using assms
    by (simp add: run_def cycler_step_def copy_finished_def nth_append registry_def Snapshot_eq)
  have app: "run (xs @ ys) d = run ys (run xs d)" for xs ys d
    by (simp add: run_def)
  show ?thesis
    by (simp only: split app two loop last)
qed


lemma run_append: "run (xs @ ys) c = run ys (run xs c)"
  by (simp add: run_def)

lemma listener_copy_loop:
  "lpc c = L_Copying src new \<Longrightarrow> src \<noteq> new \<Longrightarrow> new < length (heap (mem c)) \<Longrightarrow>
   heap (mem c) ! new = take j (heap (mem c) ! src) \<Longrightarrow> j \<le> length (heap (mem c) ! src) \<Longrightarrow>
   k = length (heap (mem c) ! src) - j \<Longrightarrow>
   run (replicate k Listener) c =
     c\<lparr>mem := (mem c)\<lparr>heap := (heap (mem c))[new := heap (mem c) ! src]\<rparr>\<rparr>"
proof (induction k arbitrary: c j)
  case 0
  then have "heap (mem c) ! new = heap (mem c) ! src"
    by simp
  then have "(heap (mem c))[new := heap (mem c) ! src] = heap (mem c)"
    by (metis list_update_id)
  then show ?case
    by (simp add: run_def)
next
  case (Suc k)
  let ?h = "heap (mem c)"
  let ?c = "c\<lparr>mem := (mem c)\<lparr>heap := ?h[new := take (Suc j) (?h ! src)]\<rparr>\<rparr>"
  from Suc.prems have j: "j < length (?h ! src)"
    by simp
  with Suc.prems have len: "length (?h ! new) = j"
    by simp
  from Suc.prems j len have "step Listener c = ?c"
    by (simp add: listener_step_def copy_finished_def copy_elem_def take_Suc_conv_app_nth)
  moreover from Suc.prems j have "run (replicate k Listener) ?c =
      ?c\<lparr>mem := (mem ?c)\<lparr>heap := (heap (mem ?c))[new := heap (mem ?c) ! src]\<rparr>\<rparr>"
    by (intro Suc.IH [where j = "Suc j"]) simp_all
  ultimately have "run (replicate k Listener) (step Listener c) =
      c\<lparr>mem := (mem c)\<lparr>heap := ?h[new := ?h ! src]\<rparr>\<rparr>"
    using Suc.prems(2) by simp
  then show ?case
    by (simp only: replicate_Suc run_Cons)
qed

lemma listener_alone:
  assumes "lpc c = L_Idle" and "lock c = None" and "inbox c = data # rest"
  shows "run (replicate (length (parse_errors data) + 6) Listener) c =
     c\<lparr>mem := listener_callback data (mem c), inbox := rest\<rparr>"
proof -
  let ?h = "heap (mem c)"
  let ?e = "length ?h"
  let ?n = "Suc (length ?h)"
  let ?xs = "parse_errors data"
  let ?k = "length ?xs"
  let ?c3 = "c\<lparr>mem := (mem c)\<lparr>heap := ?h @ [?xs, []]\<rparr>, lock := Some Listener, inbox := rest,
      lpc := L_Copying ?e ?n\<rparr>"
  let ?c4 = "c\<lparr>mem := (mem c)\<lparr>heap := ?h @ [?xs, ?xs]\<rparr>, lock := Some Listener, inbox := rest,
      lpc := L_Copying ?e ?n\<rparr>"
  have e: "?k + 6 = 3 + (?k + 3)"
    by arith
  have "replicate (?k + 6) Listener = replicate (3 + (?k + 3)) Listener"
    by (simp only: e)
  also have "\<dots> = replicate 3 Listener @ replicate ?k Listener @ replicate 3 Listener"
    by (simp only: replicate_add)
  also have "replicate 3 Listener = [Listener, Listener, Listener]"
    by (simp add: numeral_3_eq_3)
  finally have split: "replicate (?k + 6) Listener =
      [Listener, Listener, Listener] @ replicate ?k Listener @ [Listener, Listener, Listener]" .
  have three: "run [Listener, Listener, Listener] c = ?c3"
    using assms by (simp add: run_def listener_step_def new_list_def)
  have "run (replicate ?k Listener) ?c3 =
      ?c3\<lparr>mem := (mem ?c3)\<lparr>heap := (heap (mem ?c3))[?n := heap (mem ?c3) ! ?e]\<rparr>\<rparr>"
    by (intro listener_copy_loop [where j = 0]) (simp_all add: nth_append)
  also have "\<dots> = ?c4"
    by (simp add: nth_append list_update_append)
  finally have loop: "run (replicate ?k Listener) ?c3 = ?c4" .
  have last: "run [Listener, Listener, Listener] ?c4 =
      c\<lparr>mem := listener_callback data (mem c), inbox := rest\<rparr>"
    using assms
    by (simp add: run_def listener_step_def copy_finished_def nth_append
        listener_callback_def Replace_def list_copy_def new_list_def)
  show ?thesis
    by (simp only: split run_append three loop last)
qed

end
